theory Spec2Isabelle
  imports Complex_Main
begin

section \<open>Characters\<close>

text \<open>
  A \<^verbatim>\<open>std::string\<close> is a sequence of bytes: \<^typ>\<open>string\<close>.  The classification
  functions of \<^verbatim>\<open><cctype>\<close> are taken in the default "C" locale, where they depend on
  the byte value only.  The parser always calls them on
  \<^verbatim>\<open>static_cast<unsigned char>(c)\<close>, that is on the byte value \<open>of_char c\<close>.
\<close>

definition byte :: "char \<Rightarrow> int" where
  "byte c = of_char c"

definition isspace :: "char \<Rightarrow> bool" where
  "isspace c \<longleftrightarrow> byte c = 32 \<or> (9 \<le> byte c \<and> byte c \<le> 13)"

definition isdigit :: "char \<Rightarrow> bool" where
  "isdigit c \<longleftrightarrow> 48 \<le> byte c \<and> byte c \<le> 57"

definition isxdigit :: "char \<Rightarrow> bool" where
  "isxdigit c \<longleftrightarrow> isdigit c \<or> (97 \<le> byte c \<and> byte c \<le> 102) \<or> (65 \<le> byte c \<and> byte c \<le> 70)"

definition digit_value :: "char \<Rightarrow> int" where
  "digit_value c =
     (if isdigit c then byte c - 48
      else if 97 \<le> byte c then byte c - 87
      else byte c - 55)"

text \<open>The value of a digit sequence in a base, most significant digit first.\<close>

definition digits_value :: "int \<Rightarrow> string \<Rightarrow> int" where
  "digits_value base ds = foldl (\<lambda>acc c. acc * base + digit_value c) 0 ds"

text \<open>The number of digits of a positive integer in a base (0 for \<open>n \<le> 0\<close>).\<close>

function digit_count :: "int \<Rightarrow> int \<Rightarrow> nat" where
  "digit_count base n =
     (if n \<le> 0 \<or> base \<le> 1 then 0 else Suc (digit_count base (n div base)))"
  by pat_completeness auto
termination
  by (relation "measure (\<lambda>(base, n). nat n)") (auto simp: int_div_less_self)

declare digit_count.simps [simp del]

abbreviation quote :: char where "quote \<equiv> CHR 0x22"
abbreviation backslash :: char where "backslash \<equiv> CHR 0x5C"

section \<open>Failures\<close>

text \<open>
  The code throws \<^verbatim>\<open>std::runtime_error(message)\<close> from the accessors and
  \<^verbatim>\<open>JsonParseError(message, position)\<close> from the parser.  Two operations it uses have
  no defined behaviour outside their domain (\<^verbatim>\<open>std::vector::operator[]\<close> past the
  end, \<^verbatim>\<open>static_cast<long long>\<close> of a double that does not fit): the model
  marks such an execution with \<open>undefined_behaviour\<close>, which is not an exception and
  cannot be caught.
\<close>

datatype failure =
    runtime_error string
  | JsonParseError string nat
  | undefined_behaviour

fun position :: "failure \<Rightarrow> nat option" where
  "position (JsonParseError message pos) = Some pos"
| "position (runtime_error message) = None"
| "position undefined_behaviour = None"

section \<open>Doubles\<close>

text \<open>
  A finite \<^verbatim>\<open>double\<close> is modelled by its exact value, a rational number.  The
  program does no floating-point arithmetic: it converts text to a double
  (\<^verbatim>\<open>std::stod\<close>), a double to \<^verbatim>\<open>long long\<close> and back, compares two doubles and
  prints one.  Negative zero is identified with zero (the program cannot tell them
  apart: \<open>==\<close> does not, and both print as \<open>0\<close>).  Infinities and NaN are not
  represented: \<^verbatim>\<open>std::stod\<close> never returns them to the parser (it throws on overflow),
  and for them the conversion to \<^verbatim>\<open>long long\<close> in \<open>stringify\<close> is undefined, as it
  is for the finite doubles that do not fit.
\<close>

type_synonym double = rat

definition pow2 :: "int \<Rightarrow> rat" where
  "pow2 e = (if 0 \<le> e then 2 ^ nat e else 1 / 2 ^ nat (- e))"

definition pow10 :: "int \<Rightarrow> rat" where
  "pow10 e = (if 0 \<le> e then 10 ^ nat e else 1 / 10 ^ nat (- e))"

text \<open>\<open>\<lfloor>log\<^sub>2 q\<rfloor>\<close> and \<open>\<lfloor>log\<^sub>1\<^sub>0 q\<rfloor>\<close> of a positive rational, from the lengths of
  numerator and denominator.\<close>

definition floor_log2 :: "rat \<Rightarrow> int" where
  "floor_log2 q =
     (let (a, b) = quotient_of q; e = int (digit_count 2 a) - int (digit_count 2 b)
      in if pow2 e \<le> q then e else e - 1)"

definition floor_log10 :: "rat \<Rightarrow> int" where
  "floor_log10 q =
     (let (a, b) = quotient_of q;
          e = int (digit_count 10 a) - int (digit_count 10 b)
      in if pow10 e \<le> q then e else e - 1)"

definition round_half_even :: "rat \<Rightarrow> int" where
  "round_half_even r =
     (let f = \<lfloor>r\<rfloor>; d = r - of_int f
      in if d < 1 / 2 then f
         else if 1 / 2 < d then f + 1
         else if even f then f else f + 1)"

text \<open>
  The binary64 value nearest to \<open>q\<close>, ties to even: 53 significant bits, the least
  exponent of a unit in the last place is \<open>-1074\<close> (subnormal numbers).  The result is
  not bounded above here; the callers test for overflow.
\<close>

definition round_binary64 :: "rat \<Rightarrow> double" where
  "round_binary64 q =
     (if q = 0 then 0
      else let e = max (floor_log2 \<bar>q\<bar> - 52) (- 1074);
               m = round_half_even (\<bar>q\<bar> / pow2 e)
           in sgn q * of_int m * pow2 e)"


text \<open>
  Rounding to 53 significant bits with no bound on the exponent, and the test for a
  tiny result that it gives: a nonzero value is tiny when, rounded in this way, it is
  still below the least normal double \<open>2\<^sup>-\<^sup>1\<^sup>0\<^sup>2\<^sup>2\<close> (tininess is detected after
  rounding).
\<close>

definition round_precision53 :: "rat \<Rightarrow> rat" where
  "round_precision53 q =
     (if q = 0 then 0
      else let e = floor_log2 \<bar>q\<bar> - 52;
               m = round_half_even (\<bar>q\<bar> / pow2 e)
           in sgn q * of_int m * pow2 e)"

definition tiny :: "rat \<Rightarrow> bool" where
  "tiny q \<longleftrightarrow> q \<noteq> 0 \<and> floor_log2 \<bar>round_precision53 q\<bar> < - 1022"

text \<open>
  \<^verbatim>\<open>static_cast<long long>(num)\<close> truncates toward zero; the behaviour is undefined
  (\<open>None\<close>) when the truncated value is not a \<^verbatim>\<open>long long\<close>.  In the comparison
  \<^verbatim>\<open>num == static_cast<long long>(num)\<close> the integer is converted back to double.
\<close>

definition double_to_long_long :: "double \<Rightarrow> int option" where
  "double_to_long_long num =
     (let t = (if 0 \<le> num then \<lfloor>num\<rfloor> else \<lceil>num\<rceil>)
      in if - (2 ^ 63) \<le> t \<and> t < 2 ^ 63 then Some t else None)"

definition long_long_to_double :: "int \<Rightarrow> double" where
  "long_long_to_double n = round_binary64 (of_int n)"


section \<open>Library conversions\<close>

text \<open>
  \<^verbatim>\<open>std::stoi(str, nullptr, 16)\<close> is \<^verbatim>\<open>strtol\<close> in base 16: it skips leading white
  space, takes an optional sign and an optional \<^verbatim>\<open>0x\<close> or \<^verbatim>\<open>0X\<close> prefix (when a
  hexadecimal digit follows it), and converts the longest run of hexadecimal digits
  that follows; the rest of the string is ignored.  It throws
  \<^verbatim>\<open>std::invalid_argument\<close> when there is no digit and \<^verbatim>\<open>std::out_of_range\<close> when
  the value is not an \<^verbatim>\<open>int\<close>.  The caller catches both with \<^verbatim>\<open>catch (...)\<close>, so
  the model returns \<open>None\<close> for either.
\<close>

definition skip_hex_prefix :: "string \<Rightarrow> string" where
  "skip_hex_prefix s =
     (if 3 \<le> length s \<and> s ! 0 = CHR ''0'' \<and> (s ! 1 = CHR ''x'' \<or> s ! 1 = CHR ''X'')
         \<and> isxdigit (s ! 2)
      then drop 2 s else s)"

definition stoi16 :: "string \<Rightarrow> int option" where
  "stoi16 str =
     (let s1 = dropWhile isspace str;
          negative = (s1 \<noteq> [] \<and> hd s1 = CHR ''-'');
          s2 = (if s1 \<noteq> [] \<and> (hd s1 = CHR ''-'' \<or> hd s1 = CHR ''+'') then tl s1 else s1);
          ds = takeWhile isxdigit (skip_hex_prefix s2);
          v = (if negative then - digits_value 16 ds else digits_value 16 ds)
      in if ds = [] then None
         else if v < - (2 ^ 31) \<or> 2 ^ 31 - 1 < v then None
         else Some v)"

text \<open>
  \<^verbatim>\<open>std::stod\<close> is \<^verbatim>\<open>strtod\<close>.  The parser calls it only on the text that
  \<open>parse_number\<close> has scanned, so the model covers the decimal form: an optional
  \<open>-\<close>, digits, an optional fraction, an optional exponent, converted from the longest
  such prefix.  (\<^verbatim>\<open>strtod\<close> also takes leading white space, a \<open>+\<close> sign, hexadecimal
  floats, \<open>inf\<close> and \<open>nan\<close>; none of them starts with \<open>-\<close> or a digit followed by what
  the scanner lets through.)  The decimal value is rounded to the nearest double.
  \<^verbatim>\<open>std::stod\<close> throws \<^verbatim>\<open>std::invalid_argument\<close> when no conversion is possible and
  \<^verbatim>\<open>std::out_of_range\<close> when \<^verbatim>\<open>strtod\<close> reports \<^verbatim>\<open>ERANGE\<close>: on overflow, and on
  underflow.  The C standard leaves the report of underflow to the implementation; the
  model follows the GNU C library on x86-64, which reports it when the decimal value is
  tiny (after rounding to 53 bits with an unbounded exponent it is still below the
  least normal double) and the double that is returned differs from it.  So a decimal
  just below \<open>2\<^sup>-\<^sup>1\<^sup>0\<^sup>2\<^sup>2\<close> whose nearest double is \<open>2\<^sup>-\<^sup>1\<^sup>0\<^sup>2\<^sup>2\<close> is refused when it is
  closer to the 53-bit value below \<open>2\<^sup>-\<^sup>1\<^sup>0\<^sup>2\<^sup>2\<close>, and a subnormal that the text denotes
  exactly is returned.  \<open>None\<close> stands for either exception.
\<close>

definition decimal_exponent :: "string \<Rightarrow> int" where
  "decimal_exponent r =
     (if r \<noteq> [] \<and> (hd r = CHR ''e'' \<or> hd r = CHR ''E'') then
        let r1 = tl r;
            negative = (r1 \<noteq> [] \<and> hd r1 = CHR ''-'');
            r2 = (if r1 \<noteq> [] \<and> (hd r1 = CHR ''-'' \<or> hd r1 = CHR ''+'') then tl r1 else r1);
            ds = takeWhile isdigit r2
        in if ds = [] then 0
           else if negative then - digits_value 10 ds else digits_value 10 ds
      else 0)"

definition decimal_of :: "string \<Rightarrow> rat option" where
  "decimal_of str =
     (let negative = (str \<noteq> [] \<and> hd str = CHR ''-'');
          s1 = (if negative then tl str else str);
          ip = takeWhile isdigit s1;
          r1 = dropWhile isdigit s1;
          fp = (if r1 \<noteq> [] \<and> hd r1 = CHR ''.'' then takeWhile isdigit (tl r1) else []);
          r2 = (if r1 \<noteq> [] \<and> hd r1 = CHR ''.'' then dropWhile isdigit (tl r1) else r1);
          m = of_int (digits_value 10 (ip @ fp)) * pow10 (decimal_exponent r2 - int (length fp))
      in if ip = [] \<and> fp = [] then None
         else Some (if negative then - m else m))"

definition stod :: "string \<Rightarrow> double option" where
  "stod str =
     (case decimal_of str of
        None \<Rightarrow> None
      | Some q \<Rightarrow>
          let d = round_binary64 q
          in if q = 0 then Some 0
             else if tiny q \<and> d \<noteq> q then None
             else if 1024 \<le> floor_log2 \<bar>d\<bar> then None
             else Some d)"

section \<open>Stream output of numbers\<close>

text \<open>\<^verbatim>\<open>oss << static_cast<long long>(num)\<close>: the decimal digits, with \<open>-\<close> for a
  negative number.\<close>

fun put_digits :: "nat \<Rightarrow> int \<Rightarrow> string" where
  "put_digits 0 n = []"
| "put_digits (Suc k) n = put_digits k (n div 10) @ [char_of (48 + n mod 10)]"

definition put_unsigned :: "int \<Rightarrow> string" where
  "put_unsigned n = (if n = 0 then ''0'' else put_digits (digit_count 10 n) n)"

definition put_long_long :: "int \<Rightarrow> string" where
  "put_long_long n = (if n < 0 then CHR ''-'' # put_unsigned (- n) else put_unsigned n)"

text \<open>
  \<^verbatim>\<open>oss << num\<close> on a fresh stream is \<^verbatim>\<open>printf("%g")\<close> with precision 6: the value is
  rounded to six significant decimal digits; with decimal exponent \<open>X\<close> after rounding,
  the fixed style is used when \<open>-4 \<le> X < 6\<close> and the exponent style otherwise
  (exponent of at least two digits); trailing zeros of the fraction are removed, and
  the decimal point with them when no fraction is left.
\<close>

definition strip_fraction :: "string \<Rightarrow> string \<Rightarrow> string" where
  "strip_fraction ip fp =
     (let fp' = rev (dropWhile (\<lambda>c. c = CHR ''0'') (rev fp))
      in if fp' = [] then ip else ip @ ''.'' @ fp')"

definition put_double :: "double \<Rightarrow> string" where
  "put_double num =
     (if num = 0 then ''0''
      else
        let a = \<bar>num\<bar>;
            X0 = floor_log10 a;
            n0 = round_half_even (a / pow10 (X0 - 5));
            n = (if 10 ^ 6 \<le> n0 then n0 div 10 else n0);
            X = (if 10 ^ 6 \<le> n0 then X0 + 1 else X0);
            ds = put_digits 6 n;
            body =
              (if X < - 4 \<or> 6 \<le> X then
                 strip_fraction (take 1 ds) (drop 1 ds)
                   @ [CHR ''e'', if X < 0 then CHR ''-'' else CHR ''+'']
                   @ (if \<bar>X\<bar> < 10 then ''0'' else []) @ put_unsigned \<bar>X\<bar>
               else if 0 \<le> X then
                 strip_fraction (take (nat X + 1) ds) (drop (nat X + 1) ds)
               else
                 strip_fraction ''0'' (replicate (nat (- X - 1)) (CHR ''0'') @ ds))
        in if num < 0 then CHR ''-'' # body else body)"


section \<open>The value model\<close>

text \<open>
  \<^verbatim>\<open>JsonValue\<close> is a variant of \<^verbatim>\<open>nullptr_t\<close>, \<^verbatim>\<open>bool\<close>, \<^verbatim>\<open>double\<close>,
  \<^verbatim>\<open>std::string\<close>, \<^verbatim>\<open>JsonArray\<close> (a vector) and \<^verbatim>\<open>JsonObject\<close>
  (a \<^verbatim>\<open>std::map<std::string, Json>\<close>).  The map is modelled by the list of its entries
  in iteration order; the operations below keep it sorted by key as the map does.
\<close>

datatype Json =
    Null
  | Bool bool
  | Number double
  | String string
  | Array "Json list"
  | Object "(string \<times> Json) list"

type_synonym JsonArray = "Json list"
type_synonym JsonObject = "(string \<times> Json) list"

fun is_null :: "Json \<Rightarrow> bool" where
  "is_null Null = True" | "is_null _ = False"

fun is_bool :: "Json \<Rightarrow> bool" where
  "is_bool (Bool b) = True" | "is_bool _ = False"

fun is_number :: "Json \<Rightarrow> bool" where
  "is_number (Number d) = True" | "is_number _ = False"

fun is_string :: "Json \<Rightarrow> bool" where
  "is_string (String s) = True" | "is_string _ = False"

fun is_array :: "Json \<Rightarrow> bool" where
  "is_array (Array a) = True" | "is_array _ = False"

fun is_object :: "Json \<Rightarrow> bool" where
  "is_object (Object obj) = True" | "is_object _ = False"

fun as_bool :: "Json \<Rightarrow> failure + bool" where
  "as_bool (Bool b) = Inr b"
| "as_bool _ = Inl (runtime_error ''JSON value is not a boolean'')"


fun as_string :: "Json \<Rightarrow> failure + string" where
  "as_string (String s) = Inr s"
| "as_string _ = Inl (runtime_error ''JSON value is not a string'')"

fun as_array :: "Json \<Rightarrow> failure + JsonArray" where
  "as_array (Array a) = Inr a"
| "as_array _ = Inl (runtime_error ''JSON value is not an array'')"

fun as_object :: "Json \<Rightarrow> failure + JsonObject" where
  "as_object (Object obj) = Inr obj"
| "as_object _ = Inl (runtime_error ''JSON value is not an object'')"

subsection \<open>\<^verbatim>\<open>std::map<std::string, Json>\<close>\<close>

text \<open>\<^verbatim>\<open>std::string\<close>'s \<open><\<close>: lexicographic on the bytes, a proper prefix first.\<close>

fun string_less :: "string \<Rightarrow> string \<Rightarrow> bool" where
  "string_less [] [] = False"
| "string_less [] (y # ys) = True"
| "string_less (x # xs) [] = False"
| "string_less (x # xs) (y # ys) = (byte x < byte y \<or> (x = y \<and> string_less xs ys))"

fun map_find :: "(string \<times> 'v) list \<Rightarrow> string \<Rightarrow> 'v option" where
  "map_find [] key = None"
| "map_find ((k, v) # m) key = (if k = key then Some v else map_find m key)"

text \<open>\<open>map_emplace\<close> adds an entry for a key that the map does not have, at its place in
  the key order; \<open>map_store\<close> writes through a reference to the entry of a key.\<close>

fun map_emplace :: "string \<Rightarrow> 'v \<Rightarrow> (string \<times> 'v) list \<Rightarrow> (string \<times> 'v) list" where
  "map_emplace key val [] = [(key, val)]"
| "map_emplace key val ((k, v) # m) =
     (if string_less key k then (key, val) # (k, v) # m
      else if key = k then (k, v) # m
      else (k, v) # map_emplace key val m)"

fun map_store :: "string \<Rightarrow> 'v \<Rightarrow> (string \<times> 'v) list \<Rightarrow> (string \<times> 'v) list" where
  "map_store key val [] = []"
| "map_store key val ((k, v) # m) =
     (if k = key then (k, val) # m else (k, v) # map_store key val m)"

text \<open>
  \<^verbatim>\<open>obj[key]\<close> on the map: when the key is absent an entry with a default-constructed
  \<^verbatim>\<open>Json()\<close>, which is null, is inserted first.  The result is the map after the call and
  the value the returned reference points to.
\<close>

definition map_subscript :: "JsonObject \<Rightarrow> string \<Rightarrow> JsonObject \<times> Json" where
  "map_subscript obj key =
     (case map_find obj key of
        Some v \<Rightarrow> (obj, v)
      | None \<Rightarrow> (map_emplace key Null obj, Null))"

text \<open>\<^verbatim>\<open>obj[key] = val\<close>.\<close>

definition map_assign :: "JsonObject \<Rightarrow> string \<Rightarrow> Json \<Rightarrow> JsonObject" where
  "map_assign obj key val = map_store key val (fst (map_subscript obj key))"



subsection \<open>The index operators\<close>

text \<open>
  \<^verbatim>\<open>operator[](size_t index)\<close> is \<^verbatim>\<open>as_array()[index]\<close> in both overloads:
  \<^verbatim>\<open>std::vector::operator[]\<close> does not check the index, and past the end its behaviour
  is undefined.
\<close>

definition vector_subscript :: "'a list \<Rightarrow> nat \<Rightarrow> failure + 'a" where
  "vector_subscript a index = (if index < length a then Inr (a ! index) else Inl undefined_behaviour)"

definition index_at :: "Json \<Rightarrow> nat \<Rightarrow> failure + Json" where
  "index_at j index = (case as_array j of Inl e \<Rightarrow> Inl e | Inr a \<Rightarrow> vector_subscript a index)"

text \<open>
  The non-const \<^verbatim>\<open>operator[](const std::string& key)\<close> is \<^verbatim>\<open>as_object()[key]\<close>; it
  may change the value it is called on, so the model returns the value after the call
  together with the entry referred to.  The const overload looks the key up.
\<close>

definition index_key :: "Json \<Rightarrow> string \<Rightarrow> failure + (Json \<times> Json)" where
  "index_key j key =
     (case as_object j of
        Inl e \<Rightarrow> Inl e
      | Inr obj \<Rightarrow> (let (obj', v) = map_subscript obj key in Inr (Object obj', v)))"

definition index_key_const :: "Json \<Rightarrow> string \<Rightarrow> failure + Json" where
  "index_key_const j key =
     (case as_object j of
        Inl e \<Rightarrow> Inl e
      | Inr obj \<Rightarrow>
          (case map_find obj key of
             None \<Rightarrow> Inl (runtime_error (''Key not found: '' @ key))
           | Some v \<Rightarrow> Inr v))"

section \<open>Serialization\<close>

text \<open>\<^verbatim>\<open>"\\u" << std::hex << std::setw(4) << std::setfill('0') << static_cast<int>(c)\<close>:
  four lower-case hexadecimal digits (the value is below \<open>0x20\<close> here).\<close>

definition hex_digit :: "int \<Rightarrow> char" where
  "hex_digit d = (if d < 10 then char_of (48 + d) else char_of (87 + d))"

definition put_hex4 :: "int \<Rightarrow> string" where
  "put_hex4 n =
     [hex_digit (n div 4096 mod 16), hex_digit (n div 256 mod 16),
      hex_digit (n div 16 mod 16), hex_digit (n mod 16)]"

definition escape_char :: "char \<Rightarrow> string" where
  "escape_char c =
     (if c = quote then [backslash, quote]
      else if c = backslash then [backslash, backslash]
      else if c = CHR 0x08 then [backslash, CHR ''b'']
      else if c = CHR 0x0C then [backslash, CHR ''f'']
      else if c = CHR 0x0A then [backslash, CHR ''n'']
      else if c = CHR 0x0D then [backslash, CHR ''r'']
      else if c = CHR 0x09 then [backslash, CHR ''t'']
      else if byte c < 32 then [backslash, CHR ''u''] @ put_hex4 (byte c)
      else [c])"

definition make_indent :: "bool \<Rightarrow> int \<Rightarrow> string" where
  "make_indent pretty indent = (if pretty then replicate (nat (indent * 2)) (CHR '' '') else [])"

definition put_number :: "double \<Rightarrow> failure + string" where
  "put_number num =
     (case double_to_long_long num of
        None \<Rightarrow> Inl undefined_behaviour
      | Some n \<Rightarrow>
          if num = long_long_to_double n then Inr (put_long_long n)
          else Inr (put_double num))"

text \<open>
  \<open>stringify_array\<close> and \<open>stringify_object\<close> are the two \<^verbatim>\<open>for\<close> loops, on the
  elements that are left: the comma test \<^verbatim>\<open>i < size() - 1\<close> holds exactly when an
  element follows.  The key of an entry is written between quotes as it is.
\<close>

fun stringify :: "Json \<Rightarrow> bool \<Rightarrow> int \<Rightarrow> failure + string"
  and stringify_array :: "Json list \<Rightarrow> bool \<Rightarrow> int \<Rightarrow> failure + string"
  and stringify_object :: "(string \<times> Json) list \<Rightarrow> bool \<Rightarrow> int \<Rightarrow> failure + string"
where
  "stringify Null pretty indent = Inr ''null''"
| "stringify (Bool b) pretty indent = Inr (if b then ''true'' else ''false'')"
| "stringify (Number num) pretty indent = put_number num"
| "stringify (String s) pretty indent = Inr ([quote] @ concat (map escape_char s) @ [quote])"
| "stringify (Array arr) pretty indent =
     (case stringify_array arr pretty indent of
        Inl e \<Rightarrow> Inl e
      | Inr body \<Rightarrow>
          Inr (''['' @ (if pretty \<and> arr \<noteq> [] then [CHR 0x0A] else []) @ body
               @ (if pretty \<and> arr \<noteq> [] then make_indent pretty indent else []) @ '']''))"
| "stringify (Object obj) pretty indent =
     (case stringify_object obj pretty indent of
        Inl e \<Rightarrow> Inl e
      | Inr body \<Rightarrow>
          Inr (''{'' @ (if pretty \<and> obj \<noteq> [] then [CHR 0x0A] else []) @ body
               @ (if pretty \<and> obj \<noteq> [] then make_indent pretty indent else []) @ ''}''))"
| "stringify_array [] pretty indent = Inr []"
| "stringify_array (x # xs) pretty indent =
     (case stringify x pretty (indent + 1) of
        Inl e \<Rightarrow> Inl e
      | Inr text \<Rightarrow>
          (case stringify_array xs pretty indent of
             Inl e \<Rightarrow> Inl e
           | Inr rest \<Rightarrow>
               Inr (make_indent pretty indent @ (if pretty then ''  '' else []) @ text
                    @ (if xs \<noteq> [] then '','' else [])
                    @ (if pretty then [CHR 0x0A] else []) @ rest)))"
| "stringify_object [] pretty indent = Inr []"
| "stringify_object ((key, val) # kvs) pretty indent =
     (case stringify val pretty (indent + 1) of
        Inl e \<Rightarrow> Inl e
      | Inr text \<Rightarrow>
          (case stringify_object kvs pretty indent of
             Inl e \<Rightarrow> Inl e
           | Inr rest \<Rightarrow>
               Inr (make_indent pretty indent @ (if pretty then ''  '' else [])
                    @ [quote] @ key @ [quote] @ '': '' @ text
                    @ (if kvs \<noteq> [] then '','' else [])
                    @ (if pretty then [CHR 0x0A] else []) @ rest)))"

section \<open>The parser\<close>

abbreviation apostrophe :: char where "apostrophe \<equiv> CHR 0x27"

definition current :: "string \<Rightarrow> nat \<Rightarrow> failure + char" where
  "current json pos =
     (if length json \<le> pos then Inl (JsonParseError ''Unexpected end of input'' pos)
      else Inr (json ! pos))"

definition peek :: "string \<Rightarrow> nat \<Rightarrow> char" where
  "peek json pos = (if length json \<le> pos then CHR 0x00 else json ! pos)"

definition advance :: "string \<Rightarrow> nat \<Rightarrow> nat" where
  "advance json pos = (if pos < length json then pos + 1 else pos)"

function skip_whitespace :: "string \<Rightarrow> nat \<Rightarrow> nat" where
  "skip_whitespace json pos =
     (if pos < length json \<and> isspace (json ! pos) then skip_whitespace json (pos + 1) else pos)"
  by pat_completeness auto
termination
  by (relation "measure (\<lambda>(json, pos). length json - pos)") auto

declare skip_whitespace.simps [simp del]

definition substr :: "string \<Rightarrow> nat \<Rightarrow> nat \<Rightarrow> string" where
  "substr json pos n = take n (drop pos json)"

definition parse_null :: "string \<Rightarrow> nat \<Rightarrow> failure + (Json \<times> nat)" where
  "parse_null json pos =
     (if substr json pos 4 = ''null'' then Inr (Null, pos + 4)
      else Inl (JsonParseError ''Invalid null value'' pos))"

definition parse_bool :: "string \<Rightarrow> nat \<Rightarrow> failure + (Json \<times> nat)" where
  "parse_bool json pos =
     (if substr json pos 4 = ''true'' then Inr (Bool True, pos + 4)
      else if substr json pos 5 = ''false'' then Inr (Bool False, pos + 5)
      else Inl (JsonParseError ''Invalid boolean value'' pos))"

function skip_digits :: "string \<Rightarrow> nat \<Rightarrow> nat" where
  "skip_digits json pos =
     (if pos < length json \<and> isdigit (peek json pos) then skip_digits json (advance json pos)
      else pos)"
  by pat_completeness auto
termination
  by (relation "measure (\<lambda>(json, pos). length json - pos)") (auto simp: advance_def)

declare skip_digits.simps [simp del]

definition scan_integer :: "string \<Rightarrow> nat \<Rightarrow> failure + nat" where
  "scan_integer json pos =
     (if peek json pos = CHR ''0'' then Inr (advance json pos)
      else if isdigit (peek json pos) then Inr (skip_digits json pos)
      else Inl (JsonParseError ''Invalid number'' pos))"

definition scan_fraction :: "string \<Rightarrow> nat \<Rightarrow> failure + nat" where
  "scan_fraction json pos =
     (if peek json pos = CHR ''.'' then
        let p = advance json pos
        in if \<not> isdigit (peek json p) then
             Inl (JsonParseError ''Invalid number: expected digit after decimal point'' p)
           else Inr (skip_digits json p)
      else Inr pos)"

definition scan_exponent :: "string \<Rightarrow> nat \<Rightarrow> failure + nat" where
  "scan_exponent json pos =
     (if peek json pos = CHR ''e'' \<or> peek json pos = CHR ''E'' then
        let p = advance json pos;
            p' = (if peek json p = CHR ''+'' \<or> peek json p = CHR ''-'' then advance json p else p)
        in if \<not> isdigit (peek json p') then
             Inl (JsonParseError ''Invalid number: expected digit in exponent'' p')
           else Inr (skip_digits json p')
      else Inr pos)"

definition parse_number :: "string \<Rightarrow> nat \<Rightarrow> failure + (Json \<times> nat)" where
  "parse_number json start =
     (let p0 = (if peek json start = CHR ''-'' then advance json start else start)
      in case scan_integer json p0 of
           Inl e \<Rightarrow> Inl e
         | Inr p1 \<Rightarrow>
             (case scan_fraction json p1 of
                Inl e \<Rightarrow> Inl e
              | Inr p2 \<Rightarrow>
                  (case scan_exponent json p2 of
                     Inl e \<Rightarrow> Inl e
                   | Inr p3 \<Rightarrow>
                       (case stod (substr json start (p3 - start)) of
                          None \<Rightarrow> Inl (JsonParseError ''Invalid number format'' start)
                        | Some d \<Rightarrow> Inr (Number d, p3)))))"

text \<open>
  One escape sequence of \<open>parse_string\<close>, from the character after the backslash
  (the body of the \<^verbatim>\<open>if (peek() == '\\')\<close> branch, with the \<^verbatim>\<open>advance()\<close> that
  follows the \<^verbatim>\<open>switch\<close>): the text to append and the position after the escape.
\<close>

definition parse_escape :: "string \<Rightarrow> nat \<Rightarrow> failure + (string \<times> nat)" where
  "parse_escape json p =
     (if length json \<le> p then Inl (JsonParseError ''Unterminated string'' p)
      else
        let escaped = peek json p
        in if escaped = quote then Inr ([quote], advance json p)
           else if escaped = backslash then Inr ([backslash], advance json p)
           else if escaped = CHR ''/'' then Inr (''/'', advance json p)
           else if escaped = CHR ''b'' then Inr ([CHR 0x08], advance json p)
           else if escaped = CHR ''f'' then Inr ([CHR 0x0C], advance json p)
           else if escaped = CHR ''n'' then Inr ([CHR 0x0A], advance json p)
           else if escaped = CHR ''r'' then Inr ([CHR 0x0D], advance json p)
           else if escaped = CHR ''t'' then Inr ([CHR 0x09], advance json p)
           else if escaped = CHR ''u'' then
             let q = advance json p
             in if length json < q + 4 then Inl (JsonParseError ''Invalid unicode escape'' q)
                else
                  (case stoi16 (substr json q 4) of
                     None \<Rightarrow> Inl (JsonParseError ''Invalid unicode escape'' q)
                   | Some code_point \<Rightarrow>
                       Inr (if code_point < 128 then [char_of code_point] else ''?'',
                            advance json (q + 3)))
           else Inl (JsonParseError ''Invalid escape sequence'' p))"

lemma parse_escape_gt: "parse_escape json p = Inr (cs, p') \<Longrightarrow> p < p'"
  unfolding parse_escape_def Let_def
  by (auto simp: advance_def split: if_splits option.splits)

function parse_string_loop :: "string \<Rightarrow> nat \<Rightarrow> string \<Rightarrow> failure + (string \<times> nat)" where
  "parse_string_loop json pos result =
     (if pos < length json \<and> peek json pos \<noteq> quote then
        if peek json pos = backslash then
          (case parse_escape json (advance json pos) of
             Inl e \<Rightarrow> Inl e
           | Inr (cs, p) \<Rightarrow> parse_string_loop json p (result @ cs))
        else parse_string_loop json (advance json pos) (result @ [peek json pos])
      else Inr (result, pos))"
  by pat_completeness auto
termination
  by (relation "measure (\<lambda>(json, pos, result). length json - pos)")
     (auto simp: advance_def dest!: parse_escape_gt)

declare parse_string_loop.simps [simp del]

definition parse_string :: "string \<Rightarrow> nat \<Rightarrow> failure + (Json \<times> nat)" where
  "parse_string json pos =
     (case current json pos of
        Inl e \<Rightarrow> Inl e
      | Inr c \<Rightarrow>
          if c \<noteq> quote then Inl (JsonParseError (''Expected '' @ [apostrophe, quote, apostrophe]) pos)
          else
            (case parse_string_loop json (advance json pos) [] of
               Inl e \<Rightarrow> Inl e
             | Inr (result, p) \<Rightarrow>
                 if peek json p \<noteq> quote then Inl (JsonParseError ''Unterminated string'' p)
                 else Inr (String result, advance json p)))"

lemma skip_whitespace_ge: "pos \<le> skip_whitespace json pos"
  by (induction json pos rule: skip_whitespace.induct)
     (subst skip_whitespace.simps, auto)

lemma skip_digits_ge: "pos \<le> skip_digits json pos"
  by (induction json pos rule: skip_digits.induct)
     (subst skip_digits.simps, auto simp: advance_def)

lemma advance_ge: "pos \<le> advance json pos"
  by (simp add: advance_def)

lemma peek_in_range: "peek json pos \<noteq> CHR 0x00 \<Longrightarrow> pos < length json"
  by (auto simp: peek_def split: if_splits)

lemma current_in_range: "current json pos = Inr c \<Longrightarrow> pos < length json \<and> c = json ! pos"
  by (auto simp: current_def split: if_splits)

lemma parse_null_ge: "parse_null json pos = Inr (v, p) \<Longrightarrow> pos \<le> p"
  by (auto simp: parse_null_def split: if_splits)

lemma parse_bool_ge: "parse_bool json pos = Inr (v, p) \<Longrightarrow> pos \<le> p"
  by (auto simp: parse_bool_def split: if_splits)

lemma scan_integer_ge: "scan_integer json pos = Inr p \<Longrightarrow> pos \<le> p"
  by (auto simp: scan_integer_def advance_ge skip_digits_ge split: if_splits)

lemma scan_fraction_ge: "scan_fraction json pos = Inr p \<Longrightarrow> pos \<le> p"
  by (auto simp: scan_fraction_def Let_def split: if_splits
      intro: order_trans [OF advance_ge skip_digits_ge])

lemma scan_exponent_ge: "scan_exponent json pos = Inr p \<Longrightarrow> pos \<le> p"
  by (auto simp: scan_exponent_def Let_def split: if_splits
      intro: order_trans [OF advance_ge skip_digits_ge]
        order_trans [OF advance_ge order_trans [OF advance_ge skip_digits_ge]])

lemma parse_number_ge: "parse_number json pos = Inr (v, p) \<Longrightarrow> pos \<le> p"
  using advance_ge [of pos json] unfolding parse_number_def Let_def
  by (auto split: sum.splits option.splits if_splits
      dest!: scan_integer_ge scan_fraction_ge scan_exponent_ge)

lemma parse_string_loop_ge: "parse_string_loop json pos result = Inr (r, p) \<Longrightarrow> pos \<le> p"
proof (induction json pos result arbitrary: r p rule: parse_string_loop.induct)
  case (1 json pos result)
  show ?case
  proof (cases "pos < length json \<and> peek json pos \<noteq> quote")
    case False
    with "1.prems" show ?thesis
      by (subst (asm) parse_string_loop.simps) auto
  next
    case go: True
    show ?thesis
    proof (cases "peek json pos = backslash")
      case True
      with go "1.prems" obtain cs q where
        esc: "parse_escape json (advance json pos) = Inr (cs, q)" and
        rest: "parse_string_loop json q (result @ cs) = Inr (r, p)"
        by (subst (asm) parse_string_loop.simps) (auto split: sum.splits)
      from "1.IH"(1) [OF go True esc refl rest] have "q \<le> p" .
      moreover from parse_escape_gt [OF esc] advance_ge [of pos json] have "pos \<le> q" by simp
      ultimately show ?thesis by simp
    next
      case False
      with go "1.prems" have
        rest: "parse_string_loop json (advance json pos) (result @ [peek json pos]) = Inr (r, p)"
        by (subst (asm) parse_string_loop.simps) auto
      from "1.IH"(2) [OF go False rest] advance_ge [of pos json] show ?thesis by simp
    qed
  qed
qed

lemma parse_string_ge: "parse_string json pos = Inr (v, p) \<Longrightarrow> pos \<le> p"
  unfolding parse_string_def
  by (auto split: sum.splits if_splits prod.splits dest!: parse_string_loop_ge
      simp: advance_def)

function parse_value :: "string \<Rightarrow> nat \<Rightarrow> failure + (Json \<times> nat)"
  and parse_array :: "string \<Rightarrow> nat \<Rightarrow> failure + (Json \<times> nat)"
  and parse_array_loop :: "string \<Rightarrow> nat \<Rightarrow> JsonArray \<Rightarrow> failure + (Json \<times> nat)"
  and parse_object :: "string \<Rightarrow> nat \<Rightarrow> failure + (Json \<times> nat)"
  and parse_object_loop :: "string \<Rightarrow> nat \<Rightarrow> JsonObject \<Rightarrow> failure + (Json \<times> nat)"
where
  "parse_value json pos0 =
     (let pos = skip_whitespace json pos0
      in case current json pos of
           Inl e \<Rightarrow> Inl e
         | Inr c \<Rightarrow>
             if c = CHR ''n'' then parse_null json pos
             else if c = CHR ''t'' \<or> c = CHR ''f'' then parse_bool json pos
             else if c = quote then parse_string json pos
             else if c = CHR ''['' then parse_array json pos
             else if c = CHR ''{'' then parse_object json pos
             else if c = CHR ''-'' \<or> isdigit c then parse_number json pos
             else Inl (JsonParseError ''Unexpected character'' pos))"
| "parse_array json pos =
     (case current json pos of
        Inl e \<Rightarrow> Inl e
      | Inr c \<Rightarrow>
          if c \<noteq> CHR ''['' then Inl (JsonParseError (''Expected '[''  @ [apostrophe]) pos)
          else
            let p = skip_whitespace json (advance json pos)
            in if peek json p = CHR '']'' then Inr (Array [], advance json p)
               else parse_array_loop json p [])"
| "parse_array_loop json pos arr =
     (case parse_value json pos of
        Inl e \<Rightarrow> Inl e
      | Inr (v, p1) \<Rightarrow>
          let p2 = skip_whitespace json p1
          in if peek json p2 = CHR '']'' then Inr (Array (arr @ [v]), advance json p2)
             else if peek json p2 \<noteq> CHR '','' then
               Inl (JsonParseError ''Expected ',' or ']' in array'' p2)
             else parse_array_loop json (skip_whitespace json (advance json p2)) (arr @ [v]))"
| "parse_object json pos =
     (case current json pos of
        Inl e \<Rightarrow> Inl e
      | Inr c \<Rightarrow>
          if c \<noteq> CHR ''{'' then Inl (JsonParseError (''Expected '{''  @ [apostrophe]) pos)
          else
            let p = skip_whitespace json (advance json pos)
            in if peek json p = CHR ''}'' then Inr (Object [], advance json p)
               else parse_object_loop json p [])"
| "parse_object_loop json pos0 obj =
     (let pos = skip_whitespace json pos0
      in if peek json pos \<noteq> quote then
           Inl (JsonParseError ''Expected string key in object'' pos)
         else
           (case parse_string json pos of
              Inl e \<Rightarrow> Inl e
            | Inr (k, p1) \<Rightarrow>
                (case as_string k of
                   Inl e \<Rightarrow> Inl e
                 | Inr key \<Rightarrow>
                     let p2 = skip_whitespace json p1
                     in if peek json p2 \<noteq> CHR '':'' then
                          Inl (JsonParseError ''Expected ':' after key in object'' p2)
                        else
                          (case parse_value json (skip_whitespace json (advance json p2)) of
                             Inl e \<Rightarrow> Inl e
                           | Inr (v, p3) \<Rightarrow>
                               let p4 = skip_whitespace json p3
                               in if peek json p4 = CHR ''}'' then
                                    Inr (Object (map_assign obj key v), advance json p4)
                                  else if peek json p4 \<noteq> CHR '','' then
                                    Inl (JsonParseError ''Expected ',' or '}' in object'' p4)
                                  else parse_object_loop json (advance json p4)
                                         (map_assign obj key v)))))"
  by pat_completeness auto


lemma parse_ge_dom:
  "parse_value_parse_array_parse_array_loop_parse_object_parse_object_loop_dom (Inl (Inl (json, pos)))
     \<Longrightarrow> parse_value json pos = Inr (v, p) \<Longrightarrow> pos \<le> p"
  "parse_value_parse_array_parse_array_loop_parse_object_parse_object_loop_dom (Inl (Inr (json, pos)))
     \<Longrightarrow> parse_array json pos = Inr (v, p) \<Longrightarrow> pos \<le> p"
  "parse_value_parse_array_parse_array_loop_parse_object_parse_object_loop_dom (Inr (Inl (json, pos, arr)))
     \<Longrightarrow> parse_array_loop json pos arr = Inr (v, p) \<Longrightarrow> pos \<le> p"
  "parse_value_parse_array_parse_array_loop_parse_object_parse_object_loop_dom (Inr (Inr (Inl (json, pos))))
     \<Longrightarrow> parse_object json pos = Inr (v, p) \<Longrightarrow> pos \<le> p"
  "parse_value_parse_array_parse_array_loop_parse_object_parse_object_loop_dom (Inr (Inr (Inr (json, pos, obj))))
     \<Longrightarrow> parse_object_loop json pos obj = Inr (v, p) \<Longrightarrow> pos \<le> p"
proof (induction json pos and json pos and json pos arr and json pos and json pos obj
    arbitrary: v p and v p and v p and v p and v p
    rule: parse_value_parse_array_parse_array_loop_parse_object_parse_object_loop.pinduct)
  case (1 json pos0)
  let ?pos = "skip_whitespace json pos0"
  have ge: "pos0 \<le> ?pos" by (rule skip_whitespace_ge)
  from "1.prems" obtain c where c: "current json ?pos = Inr c"
    by (simp add: parse_value.psimps [OF "1.hyps"] Let_def split: sum.splits)
  note pv = "1.prems" [unfolded parse_value.psimps [OF "1.hyps"] Let_def c, simplified]
  consider (null) "parse_null json ?pos = Inr (v, p)"
    | (bool) "parse_bool json ?pos = Inr (v, p)"
    | (str) "parse_string json ?pos = Inr (v, p)"
    | (arr) "c = CHR ''[''" "parse_array json ?pos = Inr (v, p)"
    | (obj) "c = CHR ''{''" "c \<noteq> CHR ''[''" "parse_object json ?pos = Inr (v, p)"
    | (num) "parse_number json ?pos = Inr (v, p)"
    using pv by (auto split: if_splits)
  then have "?pos \<le> p"
  proof cases
    case null then show ?thesis by (rule parse_null_ge)
  next
    case bool then show ?thesis by (rule parse_bool_ge)
  next
    case str then show ?thesis by (rule parse_string_ge)
  next
    case arr
    have "c \<noteq> CHR ''n''" "\<not> (c = CHR ''t'' \<or> c = CHR ''f'')" "c \<noteq> quote"
      using arr(1) by simp_all
    from "1.IH"(1) [OF refl c this arr(1) arr(2)] show ?thesis .
  next
    case obj
    have "c \<noteq> CHR ''n''" "\<not> (c = CHR ''t'' \<or> c = CHR ''f'')" "c \<noteq> quote"
      using obj(1) by simp_all
    from "1.IH"(2) [OF refl c this obj(2) obj(1) obj(3)] show ?thesis .
  next
    case num then show ?thesis by (rule parse_number_ge)
  qed
  with ge show ?case by simp
next
  case (2 json pos)
  from "2.prems" obtain c where c: "current json pos = Inr c"
    by (simp add: parse_array.psimps [OF "2.hyps"] split: sum.splits)
  note pa = "2.prems" [unfolded parse_array.psimps [OF "2.hyps"] Let_def c, simplified]
  let ?p = "skip_whitespace json (advance json pos)"
  have ge: "pos \<le> ?p"
    using advance_ge [of pos json] skip_whitespace_ge [of "advance json pos" json] by simp
  from pa have br: "c = CHR ''[''" by (auto split: if_splits)
  show ?case
  proof (cases "peek json ?p = CHR '']''")
    case True
    with pa br have "p = advance json ?p" by simp
    with ge advance_ge [of ?p json] show ?thesis by simp
  next
    case False
    with pa br have "parse_array_loop json ?p [] = Inr (v, p)" by simp
    from "2.IH" [OF c _ refl False this] br ge show ?thesis by simp
  qed
next
  case (3 json pos arr)
  from "3.prems" obtain x p1 where pv: "parse_value json pos = Inr (x, p1)"
    by (cases "parse_value json pos")
       (auto simp: parse_array_loop.psimps [OF "3.hyps"])
  note pl = "3.prems" [unfolded parse_array_loop.psimps [OF "3.hyps"] Let_def pv, simplified]
  from "3.IH"(1) [OF pv] have ge1: "pos \<le> p1" .
  let ?p2 = "skip_whitespace json p1"
  have ge2: "p1 \<le> ?p2" by (rule skip_whitespace_ge)
  show ?case
  proof (cases "peek json ?p2 = CHR '']''")
    case True
    with pl have "p = advance json ?p2" by simp
    with ge1 ge2 advance_ge [of ?p2 json] show ?thesis by simp
  next
    case False
    with pl have comma: "peek json ?p2 = CHR '',''" and
      rest: "parse_array_loop json (skip_whitespace json (advance json ?p2)) (arr @ [x]) = Inr (v, p)"
      by (auto split: if_splits)
    have "\<not> peek json ?p2 \<noteq> CHR '',''" using comma by simp
    from "3.IH"(2) [OF pv refl refl False this rest]
    have "skip_whitespace json (advance json ?p2) \<le> p" .
    with ge1 ge2 advance_ge [of ?p2 json] skip_whitespace_ge [of "advance json ?p2" json]
    show ?thesis by simp
  qed
next
  case (4 json pos)
  from "4.prems" obtain c where c: "current json pos = Inr c"
    by (simp add: parse_object.psimps [OF "4.hyps"] split: sum.splits)
  note pa = "4.prems" [unfolded parse_object.psimps [OF "4.hyps"] Let_def c, simplified]
  let ?p = "skip_whitespace json (advance json pos)"
  have ge: "pos \<le> ?p"
    using advance_ge [of pos json] skip_whitespace_ge [of "advance json pos" json] by simp
  from pa have br: "c = CHR ''{''" by (auto split: if_splits)
  show ?case
  proof (cases "peek json ?p = CHR ''}''")
    case True
    with pa br have "p = advance json ?p" by simp
    with ge advance_ge [of ?p json] show ?thesis by simp
  next
    case False
    with pa br have "parse_object_loop json ?p [] = Inr (v, p)" by simp
    from "4.IH" [OF c _ refl False this] br ge show ?thesis by simp
  qed
next
  case (5 json pos0 obj)
  let ?pos = "skip_whitespace json pos0"
  note pl = "5.prems" [unfolded parse_object_loop.psimps [OF "5.hyps"] Let_def]
  from pl have q: "\<not> peek json ?pos \<noteq> quote" by (auto split: if_splits)
  from pl q obtain k p1 where ps: "parse_string json ?pos = Inr (k, p1)"
    by (cases "parse_string json ?pos") auto
  from pl q ps obtain key where key: "as_string k = Inr key"
    by (cases "as_string k") auto
  let ?p2 = "skip_whitespace json p1"
  from pl q ps key have colon: "\<not> peek json ?p2 \<noteq> CHR '':''" by (auto split: if_splits)
  let ?p3 = "skip_whitespace json (advance json ?p2)"
  from pl q ps key colon obtain x p3 where pv: "parse_value json ?p3 = Inr (x, p3)"
    by (cases "parse_value json ?p3") auto
  let ?p4 = "skip_whitespace json p3"
  note pl' = pl q ps key colon pv
  have ge: "pos0 \<le> p3"
    using skip_whitespace_ge [of pos0 json] parse_string_ge [OF ps] skip_whitespace_ge [of p1 json]
      advance_ge [of ?p2 json] skip_whitespace_ge [of "advance json ?p2" json]
      "5.IH"(1) [OF refl q ps refl key refl colon pv]
    by simp
  show ?case
  proof (cases "peek json ?p4 = CHR ''}''")
    case True
    with pl' have "p = advance json ?p4" by simp
    with ge skip_whitespace_ge [of p3 json] advance_ge [of ?p4 json] show ?thesis by simp
  next
    case False
    with pl' have comma: "\<not> peek json ?p4 \<noteq> CHR '',''" and
      rest: "parse_object_loop json (advance json ?p4) (map_assign obj key x) = Inr (v, p)"
      by (auto split: if_splits)
    from "5.IH"(2) [OF refl q ps refl key refl colon pv refl refl False comma rest]
    have "advance json ?p4 \<le> p" .
    with ge skip_whitespace_ge [of p3 json] advance_ge [of ?p4 json] show ?thesis by simp
  qed
qed

termination parse_value
proof (relation "measure (\<lambda>x. case x of
      Inl (Inl (json, pos)) \<Rightarrow> 3 * (length json - pos) + 1
    | Inl (Inr (json, pos)) \<Rightarrow> 3 * (length json - pos)
    | Inr (Inl (json, pos, arr)) \<Rightarrow> 3 * (length json - pos) + 2
    | Inr (Inr (Inl (json, pos))) \<Rightarrow> 3 * (length json - pos)
    | Inr (Inr (Inr (json, pos, obj))) \<Rightarrow> 3 * (length json - pos) + 2)", goal_cases)
  case 1
  show ?case by simp
next
  case (2 json pos0 pos c)
  then show ?case using skip_whitespace_ge [of pos0 json] by simp
next
  case (3 json pos0 pos c)
  then show ?case using skip_whitespace_ge [of pos0 json] by simp
next
  case (4 json pos c p)
  then show ?case
    using skip_whitespace_ge [of "advance json pos" json]
    by (auto dest!: current_in_range simp: advance_def)
next
  case (5 json pos arr)
  then show ?case by simp
next
  case (6 json pos arr r v p1 p2)
  then have "pos \<le> p1" using parse_ge_dom(1) by auto
  moreover from 6 have "p2 < length json" by (auto intro: peek_in_range)
  ultimately show ?case
    using 6 skip_whitespace_ge [of p1 json] skip_whitespace_ge [of "advance json p2" json]
    by (auto simp: advance_def)
next
  case (7 json pos c p)
  then show ?case
    using skip_whitespace_ge [of "advance json pos" json]
    by (auto dest!: current_in_range simp: advance_def)
next
  case (8 json pos0 obj pos r k p1 key p2)
  then have "p2 < length json" by (auto intro: peek_in_range)
  then show ?case
    using 8 skip_whitespace_ge [of pos0 json] parse_string_ge [of json pos k p1]
      skip_whitespace_ge [of p1 json] skip_whitespace_ge [of "advance json p2" json]
    by (auto simp: advance_def)
next
  case (9 json pos0 obj pos r k p1 key p2 r' v p3 p4)
  then have "skip_whitespace json (advance json p2) \<le> p3" using parse_ge_dom(1) by auto
  moreover from 9 have "p4 < length json" "p2 < length json" by (auto intro: peek_in_range)
  ultimately show ?case
    using 9 skip_whitespace_ge [of pos0 json] parse_string_ge [of json pos k p1]
      skip_whitespace_ge [of p1 json] skip_whitespace_ge [of "advance json p2" json]
      skip_whitespace_ge [of p3 json]
    by (auto simp: advance_def)
qed


declare parse_value.simps [simp del] parse_array.simps [simp del] parse_array_loop.simps [simp del]
  parse_object.simps [simp del] parse_object_loop.simps [simp del]

text \<open>\<^verbatim>\<open>Json::parse\<close>: \<^verbatim>\<open>JsonParser(json_string).parse()\<close>.\<close>

definition parse :: "string \<Rightarrow> failure + Json" where
  "parse json_string =
     (case parse_value json_string (skip_whitespace json_string 0) of
        Inl e \<Rightarrow> Inl e
      | Inr (result, pos1) \<Rightarrow>
          let pos2 = skip_whitespace json_string pos1
          in if pos2 < length json_string then
               Inl (JsonParseError ''Unexpected characters after JSON value'' pos2)
             else Inr result)"

section \<open>Key order of objects\<close>

text \<open>The entries of a map are in strictly increasing key order; a value has sorted
  keys when every object in it has.\<close>

definition sorted_keys :: "(string \<times> 'v) list \<Rightarrow> bool" where
  "sorted_keys obj \<longleftrightarrow> sorted_wrt string_less (map fst obj)"


section \<open>The number grammar, in the words of the specification\<close>

text \<open>
  These four definitions follow the specification, not the code: an optional leading
  \<open>-\<close>; an integer part that is a single \<open>0\<close> or a nonzero digit followed by more
  digits; an optional fraction, \<open>.\<close> followed by one or more digits; an optional
  exponent, \<open>e\<close> or \<open>E\<close> with an optional sign followed by one or more digits.
\<close>

definition spec_integer_part :: "string \<Rightarrow> bool" where
  "spec_integer_part ip \<longleftrightarrow>
     ip = ''0'' \<or> (ip \<noteq> [] \<and> list_all isdigit ip \<and> hd ip \<noteq> CHR ''0'')"

definition spec_fraction_part :: "string \<Rightarrow> bool" where
  "spec_fraction_part fp \<longleftrightarrow>
     (\<exists>ds. fp = CHR ''.'' # ds \<and> ds \<noteq> [] \<and> list_all isdigit ds)"

definition spec_exponent_part :: "string \<Rightarrow> bool" where
  "spec_exponent_part ep \<longleftrightarrow>
     (\<exists>marker sign ds. ep = marker # sign @ ds
        \<and> (marker = CHR ''e'' \<or> marker = CHR ''E'')
        \<and> (sign = [] \<or> sign = ''+'' \<or> sign = ''-'')
        \<and> ds \<noteq> [] \<and> list_all isdigit ds)"

definition spec_number :: "string \<Rightarrow> bool" where
  "spec_number w \<longleftrightarrow>
     (\<exists>sign ip fp ep. w = sign @ ip @ fp @ ep
        \<and> (sign = [] \<or> sign = ''-'')
        \<and> spec_integer_part ip
        \<and> (fp = [] \<or> spec_fraction_part fp)
        \<and> (ep = [] \<or> spec_exponent_part ep))"

text \<open>What may follow a number for the scanner to stop where the number ends.\<close>

definition ends_number :: "string \<Rightarrow> bool" where
  "ends_number r \<longleftrightarrow>
     r = [] \<or> (\<not> isdigit (hd r) \<and> hd r \<noteq> CHR ''.'' \<and> hd r \<noteq> CHR ''e'' \<and> hd r \<noteq> CHR ''E'')"

section \<open>Values that are written and read back unchanged\<close>

text \<open>An object key is written as it is: it reads back when it has no quote and no
  backslash.\<close>

definition plain_key :: "string \<Rightarrow> bool" where
  "plain_key key \<longleftrightarrow> list_all (\<lambda>c. c \<noteq> quote \<and> c \<noteq> backslash) key"

text \<open>
  A number is read back when its text is a number of the grammar that \<^verbatim>\<open>std::stod\<close>
  converts to the same double (no loss in the six significant digits of the default
  formatting, and a value in the range of \<^verbatim>\<open>long long\<close>).  An object is a map, so its
  entries are in key order; its keys are written without escapes.
\<close>

definition number_roundtrips :: "double \<Rightarrow> bool" where
  "number_roundtrips d \<longleftrightarrow>
     (case put_number d of
        Inl e \<Rightarrow> False
      | Inr text \<Rightarrow> spec_number text \<and> stod text = Some d)"

fun roundtrips :: "Json \<Rightarrow> bool" where
  "roundtrips (Number d) = number_roundtrips d"
| "roundtrips (Array arr) = list_all roundtrips arr"
| "roundtrips (Object obj) =
     (sorted_keys obj \<and> list_all (\<lambda>kv. plain_key (fst kv) \<and> roundtrips (snd kv)) obj)"
| "roundtrips _ = True"

text \<open>The first character of the text of a value: not white space and not \<open>]\<close>.\<close>

definition value_head :: "string \<Rightarrow> bool" where
  "value_head s \<longleftrightarrow> s \<noteq> [] \<and> \<not> isspace (hd s) \<and> hd s \<noteq> CHR '']''"

section \<open>Basic facts about the cursor and the scanners\<close>


lemma byte_range: "0 \<le> byte c \<and> byte c < 256"
proof -
  have "0 \<le> byte c mod 256 \<and> byte c mod 256 < 256" by simp
  moreover have "byte c mod 256 = byte c" by (simp add: byte_def)
  ultimately show ?thesis by simp
qed

lemma skip_whitespace_takeWhile:
  "skip_whitespace json pos = pos + length (takeWhile isspace (drop pos json))"
proof (induction json pos rule: skip_whitespace.induct)
  case (1 json pos)
  show ?case
  proof (cases "pos < length json")
    case True
    then have d: "drop pos json = json ! pos # drop (Suc pos) json"
      by (simp add: Cons_nth_drop_Suc)
    with True 1 show ?thesis
      by (subst skip_whitespace.simps) simp
  next
    case False
    then show ?thesis by (subst skip_whitespace.simps) simp
  qed
qed


section \<open>Case analysis of the recursive descent\<close>

text \<open>What a successful call of each parser function went through, in the form the
  induction rule of the functions needs.\<close>

lemma parse_value_elim [consumes 1, case_names null bool str arr obj num]:
  assumes "parse_value json pos0 = Inr (v, p)"
  obtains
    (null) "parse_null json (skip_whitespace json pos0) = Inr (v, p)"
  | (bool) "parse_bool json (skip_whitespace json pos0) = Inr (v, p)"
  | (str) "parse_string json (skip_whitespace json pos0) = Inr (v, p)"
  | (arr) c where "current json (skip_whitespace json pos0) = Inr c"
      "c \<noteq> CHR ''n''" "\<not> (c = CHR ''t'' \<or> c = CHR ''f'')" "c \<noteq> quote" "c = CHR ''[''"
      "parse_array json (skip_whitespace json pos0) = Inr (v, p)"
  | (obj) c where "current json (skip_whitespace json pos0) = Inr c"
      "c \<noteq> CHR ''n''" "\<not> (c = CHR ''t'' \<or> c = CHR ''f'')" "c \<noteq> quote" "c \<noteq> CHR ''[''"
      "c = CHR ''{''" "parse_object json (skip_whitespace json pos0) = Inr (v, p)"
  | (num) "parse_number json (skip_whitespace json pos0) = Inr (v, p)"
proof -
  from assms obtain c where c: "current json (skip_whitespace json pos0) = Inr c"
    by (simp add: parse_value.simps [of json pos0] Let_def split: sum.splits)
  note pv = assms [unfolded parse_value.simps [of json pos0] Let_def c, simplified]
  show thesis
  proof (cases "c = CHR ''n''")
    case True with pv null show ?thesis by simp
  next
    case n: False
    show ?thesis
    proof (cases "c = CHR ''t'' \<or> c = CHR ''f''")
      case True with pv n bool show ?thesis by auto
    next
      case tf: False
      show ?thesis
      proof (cases "c = quote")
        case True with pv n tf str show ?thesis by simp
      next
        case q: False
        show ?thesis
        proof (cases "c = CHR ''[''")
          case True with pv n tf q arr [OF c] show ?thesis by simp
        next
          case a: False
          show ?thesis
          proof (cases "c = CHR ''{''")
            case True with pv n tf q a obj [OF c] show ?thesis by simp
          next
            case False with pv n tf q a num show ?thesis by (auto split: if_splits)
          qed
        qed
      qed
    qed
  qed
qed

lemma parse_array_elim [consumes 1, case_names empty loop]:
  assumes "parse_array json pos = Inr (v, p)"
  obtains
    (empty) "current json pos = Inr (CHR ''['')"
      "peek json (skip_whitespace json (advance json pos)) = CHR '']''"
      "v = Array []" "p = advance json (skip_whitespace json (advance json pos))"
  | (loop) "current json pos = Inr (CHR ''['')"
      "peek json (skip_whitespace json (advance json pos)) \<noteq> CHR '']''"
      "parse_array_loop json (skip_whitespace json (advance json pos)) [] = Inr (v, p)"
proof -
  from assms obtain c where c: "current json pos = Inr c"
    by (simp add: parse_array.simps [of json pos] split: sum.splits)
  note pa = assms [unfolded parse_array.simps [of json pos] Let_def c, simplified]
  from pa have br: "c = CHR ''[''" by (auto split: if_splits)
  show thesis
  proof (cases "peek json (skip_whitespace json (advance json pos)) = CHR '']''")
    case True with pa br c empty show ?thesis by simp
  next
    case False with pa br c loop show ?thesis by simp
  qed
qed

lemma parse_array_loop_elim [consumes 1, case_names last more]:
  assumes "parse_array_loop json pos arr = Inr (v, p)"
  obtains
    (last) x p1 where "parse_value json pos = Inr (x, p1)"
      "peek json (skip_whitespace json p1) = CHR '']''"
      "v = Array (arr @ [x])" "p = advance json (skip_whitespace json p1)"
  | (more) x p1 where "parse_value json pos = Inr (x, p1)"
      "peek json (skip_whitespace json p1) \<noteq> CHR '']''"
      "\<not> peek json (skip_whitespace json p1) \<noteq> CHR '',''"
      "parse_array_loop json (skip_whitespace json (advance json (skip_whitespace json p1)))
         (arr @ [x]) = Inr (v, p)"
proof -
  from assms obtain x p1 where pv: "parse_value json pos = Inr (x, p1)"
    by (cases "parse_value json pos") (auto simp: parse_array_loop.simps [of json pos arr])
  note pl = assms [unfolded parse_array_loop.simps [of json pos arr] Let_def pv, simplified]
  show thesis
  proof (cases "peek json (skip_whitespace json p1) = CHR '']''")
    case True with pl last [OF pv] show ?thesis by simp
  next
    case False with pl more [OF pv] show ?thesis by (auto split: if_splits)
  qed
qed

lemma parse_object_elim [consumes 1, case_names empty loop]:
  assumes "parse_object json pos = Inr (v, p)"
  obtains
    (empty) "current json pos = Inr (CHR ''{'')"
      "peek json (skip_whitespace json (advance json pos)) = CHR ''}''"
      "v = Object []" "p = advance json (skip_whitespace json (advance json pos))"
  | (loop) "current json pos = Inr (CHR ''{'')"
      "peek json (skip_whitespace json (advance json pos)) \<noteq> CHR ''}''"
      "parse_object_loop json (skip_whitespace json (advance json pos)) [] = Inr (v, p)"
proof -
  from assms obtain c where c: "current json pos = Inr c"
    by (simp add: parse_object.simps [of json pos] split: sum.splits)
  note pa = assms [unfolded parse_object.simps [of json pos] Let_def c, simplified]
  from pa have br: "c = CHR ''{''" by (auto split: if_splits)
  show thesis
  proof (cases "peek json (skip_whitespace json (advance json pos)) = CHR ''}''")
    case True with pa br c empty show ?thesis by simp
  next
    case False with pa br c loop show ?thesis by simp
  qed
qed

lemma parse_object_loop_elim [consumes 1, case_names last more]:
  assumes "parse_object_loop json pos0 obj = Inr (v, p)"
  obtains
    (last) k p1 key x p3 where
      "\<not> peek json (skip_whitespace json pos0) \<noteq> quote"
      "parse_string json (skip_whitespace json pos0) = Inr (k, p1)"
      "as_string k = Inr key"
      "\<not> peek json (skip_whitespace json p1) \<noteq> CHR '':''"
      "parse_value json (skip_whitespace json (advance json (skip_whitespace json p1))) = Inr (x, p3)"
      "peek json (skip_whitespace json p3) = CHR ''}''"
      "v = Object (map_assign obj key x)" "p = advance json (skip_whitespace json p3)"
  | (more) k p1 key x p3 where
      "\<not> peek json (skip_whitespace json pos0) \<noteq> quote"
      "parse_string json (skip_whitespace json pos0) = Inr (k, p1)"
      "as_string k = Inr key"
      "\<not> peek json (skip_whitespace json p1) \<noteq> CHR '':''"
      "parse_value json (skip_whitespace json (advance json (skip_whitespace json p1))) = Inr (x, p3)"
      "peek json (skip_whitespace json p3) \<noteq> CHR ''}''"
      "\<not> peek json (skip_whitespace json p3) \<noteq> CHR '',''"
      "parse_object_loop json (advance json (skip_whitespace json p3)) (map_assign obj key x)
         = Inr (v, p)"
proof -
  let ?pos = "skip_whitespace json pos0"
  note pl = assms [unfolded parse_object_loop.simps [of json pos0 obj] Let_def]
  from pl have q: "\<not> peek json ?pos \<noteq> quote" by (auto split: if_splits)
  from pl q obtain k p1 where ps: "parse_string json ?pos = Inr (k, p1)"
    by (cases "parse_string json ?pos") auto
  from pl q ps obtain key where key: "as_string k = Inr key"
    by (cases "as_string k") auto
  let ?p2 = "skip_whitespace json p1"
  from pl q ps key have colon: "\<not> peek json ?p2 \<noteq> CHR '':''" by (auto split: if_splits)
  let ?p3 = "skip_whitespace json (advance json ?p2)"
  from pl q ps key colon obtain x p3 where pv: "parse_value json ?p3 = Inr (x, p3)"
    by (cases "parse_value json ?p3") auto
  note pl' = pl q ps key colon pv
  show thesis
  proof (cases "peek json (skip_whitespace json p3) = CHR ''}''")
    case True with pl' last [OF q ps key colon pv] show ?thesis by simp
  next
    case False with pl' more [OF q ps key colon pv] show ?thesis by (auto split: if_splits)
  qed
qed

section \<open>The index operators\<close>

text \<open>
  Claim C4, as stated, fails: the operator does no bounds check.  On the array
  \<^verbatim>\<open>[null, true]\<close> the position 2 is past the end, and the call has undefined
  behaviour instead of throwing an index-out-of-range error.
\<close>

theorem index_at_out_of_range_unchecked:
  "index_at (Array [Null, Bool True]) 2 = Inl undefined_behaviour"
  by (simp add: index_at_def vector_subscript_def)

text \<open>
  Claim C4, amended.  The index operator by position is valid only on an array: on
  every other variant it throws the \<open>runtime_error\<close> "JSON value is not an array".  On
  an array it returns the element at a position below the size; a position at or past
  the size is not checked (\<^verbatim>\<open>std::vector::operator[]\<close>), no error is thrown and the
  behaviour is undefined.
\<close>

theorem index_at_unchecked:
  "(\<not> is_array j \<longrightarrow> index_at j index = Inl (runtime_error ''JSON value is not an array''))
   \<and> (index < length a \<longrightarrow> index_at (Array a) index = Inr (a ! index))
   \<and> (length a \<le> index \<longrightarrow> index_at (Array a) index = Inl undefined_behaviour)"
  by (cases j) (simp_all add: index_at_def vector_subscript_def)

text \<open>The three cases at concrete values.\<close>

theorem index_at_unchecked_witness:
  "index_at (String ''abc'') 0 = Inl (runtime_error ''JSON value is not an array'')
   \<and> index_at (Array [Null, Number 7]) 1 = Inr (Number 7)
   \<and> index_at (Array [Null, Number 7]) 5 = Inl undefined_behaviour"
  using index_at_unchecked [of "String ''abc''" 1 "[Null, Number 7]"]
    index_at_unchecked [of "String ''abc''" 5 "[Null, Number 7]"]
    index_at_unchecked [of "String ''abc''" 0 "[Null, Number 7]"]
  by simp


lemma map_find_emplace_same:
  "map_find obj key = None \<Longrightarrow> map_find (map_emplace key val obj) key = Some val"
  by (induction obj) (auto split: if_splits)

lemma map_find_emplace_other:
  "k \<noteq> key \<Longrightarrow> map_find (map_emplace key val obj) k = map_find obj k"
  by (induction obj) auto

text \<open>
  Claim C5.  On an object, the non-const key operator returns the existing entry and
  leaves the object as it is when the key is present; when the key is absent it
  inserts a null entry at that key, returns that entry, and changes no other key.  The
  const key operator throws the \<open>runtime_error\<close> "Key not found: " followed by the key
  when the key is absent, and returns the entry when it is present; being const, it
  has no effect on the object.
\<close>

theorem key_index_semantics:
  "(map_find obj key = Some v \<longrightarrow> index_key (Object obj) key = Inr (Object obj, v))
   \<and> (map_find obj key = None \<longrightarrow>
        index_key (Object obj) key = Inr (Object (map_emplace key Null obj), Null)
        \<and> map_find (map_emplace key Null obj) key = Some Null
        \<and> (\<forall>k. k \<noteq> key \<longrightarrow> map_find (map_emplace key Null obj) k = map_find obj k))
   \<and> (map_find obj key = None \<longrightarrow>
        index_key_const (Object obj) key = Inl (runtime_error (''Key not found: '' @ key)))
   \<and> (map_find obj key = Some v \<longrightarrow> index_key_const (Object obj) key = Inr v)"
  by (simp add: index_key_def index_key_const_def map_subscript_def
      map_find_emplace_same map_find_emplace_other)

text \<open>The four cases on the object \<^verbatim>\<open>{"a": true}\<close>.\<close>

theorem key_index_semantics_witness:
  "index_key (Object [(''a'', Bool True)]) ''a'' = Inr (Object [(''a'', Bool True)], Bool True)
   \<and> index_key (Object [(''a'', Bool True)]) ''b'' =
       Inr (Object [(''a'', Bool True), (''b'', Null)], Null)
   \<and> index_key_const (Object [(''a'', Bool True)]) ''b'' =
       Inl (runtime_error ''Key not found: b'')
   \<and> index_key_const (Object [(''a'', Bool True)]) ''a'' = Inr (Bool True)"
  using key_index_semantics [of "[(''a'', Bool True)]" "''a''" "Bool True"]
    key_index_semantics [of "[(''a'', Bool True)]" "''b''" "Bool True"]
  by (simp add: byte_def)


section \<open>The characters of a printed integer\<close>

lemma isdigit_char_of: "0 \<le> m \<Longrightarrow> m < 10 \<Longrightarrow> isdigit (char_of (48 + m :: int))"
  by (simp add: isdigit_def byte_def)

lemma put_digits_isdigit: "c \<in> set (put_digits k n) \<Longrightarrow> isdigit c"
  by (induction k arbitrary: n) (auto intro: isdigit_char_of)

lemma put_unsigned_isdigit: "c \<in> set (put_unsigned n) \<Longrightarrow> isdigit c"
  by (auto simp: put_unsigned_def isdigit_def byte_def dest: put_digits_isdigit split: if_splits)



section \<open>Objects: duplicate keys and key order\<close>

lemma string_less_irrefl: "\<not> string_less x x"
  by (induction x) auto

lemma string_less_trans: "string_less x y \<Longrightarrow> string_less y z \<Longrightarrow> string_less x z"
proof (induction x y arbitrary: z rule: string_less.induct)
  case (4 x xs y ys)
  show ?case
  proof (cases z)
    case Nil
    with 4 show ?thesis by simp
  next
    case (Cons c cs)
    from "4.prems" Cons have xy: "byte x < byte y \<or> (x = y \<and> string_less xs ys)"
      and yc: "byte y < byte c \<or> (y = c \<and> string_less ys cs)" by simp_all
    from xy yc "4.IH" [of cs] have "byte x < byte c \<or> (x = c \<and> string_less xs cs)"
      by auto
    with Cons show ?thesis by simp
  qed
next
  case (2 y ys)
  then show ?case by (cases z) simp_all
qed simp_all







lemma map_find_store_other:
  "k \<noteq> key \<Longrightarrow> map_find (map_store key val obj) k = map_find obj k"
  by (induction obj) auto


lemma map_find_assign_other: "k \<noteq> key \<Longrightarrow> map_find (map_assign obj key val) k = map_find obj k"
  by (auto simp: map_assign_def map_subscript_def map_find_store_other map_find_emplace_other
      split: option.splits)

lemma map_store_absent: "map_find obj key = None \<Longrightarrow> map_store key val obj = obj"
  by (induction obj) (auto split: if_splits)
















section \<open>White space\<close>

text \<open>
  Claim C10.  The parser skips every byte that \<^verbatim>\<open>std::isspace\<close> classifies as white
  space: space, tab, newline, vertical tab, form feed and carriage return.
  \<open>skip_whitespace\<close> moves over the longest run of such bytes at the cursor.  So
  \<^verbatim>\<open>\f[]\<close> parses to the empty array, and vertical tabs and form feeds between the
  tokens of an array are skipped as well.
\<close>

theorem whitespace_includes_vt_ff:
  "(isspace c \<longleftrightarrow>
      c = CHR '' '' \<or> c = CHR 0x09 \<or> c = CHR 0x0A \<or> c = CHR 0x0B \<or> c = CHR 0x0C \<or> c = CHR 0x0D)
   \<and> skip_whitespace json pos = pos + length (takeWhile isspace (drop pos json))
   \<and> parse (CHR 0x0C # ''[]'') = Inr (Array [])
   \<and> parse (''['' @ [CHR 0x0B] @ ''1,'' @ [CHR 0x0C, CHR 0x0B] @ ''2]'' @ [CHR 0x0C])
       = Inr (Array [Number 1, Number 2])"
proof -
  have "isspace c \<longleftrightarrow>
      c = CHR '' '' \<or> c = CHR 0x09 \<or> c = CHR 0x0A \<or> c = CHR 0x0B \<or> c = CHR 0x0C \<or> c = CHR 0x0D"
    by (cases c) (simp add: isspace_def byte_def)
  moreover have "parse (CHR 0x0C # ''[]'') = Inr (Array [])"
    by code_simp
  moreover have "parse (''['' @ [CHR 0x0B] @ ''1,'' @ [CHR 0x0C, CHR 0x0B] @ ''2]'' @ [CHR 0x0C])
       = Inr (Array [Number 1, Number 2])"
    by code_simp
  ultimately show ?thesis
    using skip_whitespace_takeWhile [of json pos] by blast
qed

text \<open>The run of white space skipped at the start of \<^verbatim>\<open>\v\f x\<close> has length 3.\<close>

theorem whitespace_includes_vt_ff_witness:
  "isspace (CHR 0x0B) \<and> isspace (CHR 0x0C)
   \<and> skip_whitespace ([CHR 0x0B, CHR 0x0C] @ '' x'') 0 = 3"
proof -
  have "takeWhile isspace (drop 0 ([CHR 0x0B, CHR 0x0C] @ '' x'')) = [CHR 0x0B, CHR 0x0C, CHR '' '']"
    by (simp add: isspace_def byte_def)
  with whitespace_includes_vt_ff [of "CHR 0x0B" "[CHR 0x0B, CHR 0x0C] @ '' x''" 0]
    whitespace_includes_vt_ff [of "CHR 0x0C" "[CHR 0x0B, CHR 0x0C] @ '' x''" 0]
  show ?thesis by simp
qed

section \<open>Unicode escapes\<close>

lemma digits_value_snoc: "digits_value base (ds @ [c]) = digits_value base ds * base + digit_value c"
  by (simp add: digits_value_def)

lemma digit_value_xdigit: "isxdigit c \<Longrightarrow> 0 \<le> digit_value c \<and> digit_value c < 16"
  by (auto simp: isxdigit_def isdigit_def digit_value_def)

lemma digits_value_hex_bound:
  "\<forall>c\<in>set ds. isxdigit c \<Longrightarrow> 0 \<le> digits_value 16 ds \<and> digits_value 16 ds < 16 ^ length ds"
proof (induction ds rule: rev_induct)
  case Nil
  then show ?case by (simp add: digits_value_def)
next
  case (snoc c ds)
  then have "0 \<le> digits_value 16 ds \<and> digits_value 16 ds + 1 \<le> 16 ^ length ds" by simp
  moreover from snoc.prems have "0 \<le> digit_value c \<and> digit_value c < 16"
    by (simp add: digit_value_xdigit)
  ultimately show ?case
    by (simp add: digits_value_snoc)
qed

lemma isxdigit_not_isspace: "isxdigit c \<Longrightarrow> \<not> isspace c"
  by (auto simp: isxdigit_def isdigit_def isspace_def)

lemma isxdigit_not_sign: "isxdigit c \<Longrightarrow> c \<noteq> CHR ''-'' \<and> c \<noteq> CHR ''+'' \<and> c \<noteq> CHR ''x'' \<and> c \<noteq> CHR ''X''"
  by (auto simp: isxdigit_def isdigit_def byte_def)

lemma takeWhile_length_le: "length (takeWhile P xs) \<le> length xs"
  by (induction xs) auto

text \<open>The conversion of a block that starts with a hexadecimal digit: no white space
  and no sign are skipped.\<close>

lemma stoi16_unsigned:
  assumes "block \<noteq> []" "isxdigit (hd block)"
  shows "stoi16 block =
    (let ds = takeWhile isxdigit (skip_hex_prefix block)
     in if ds = [] then None
        else if digits_value 16 ds < - (2 ^ 31) \<or> 2 ^ 31 - 1 < digits_value 16 ds then None
        else Some (digits_value 16 ds))"
proof -
  have "dropWhile isspace block = block"
    using assms isxdigit_not_isspace [of "hd block"] by (cases block) auto
  moreover have "hd block \<noteq> CHR ''-''" "hd block \<noteq> CHR ''+''"
    using assms isxdigit_not_sign [of "hd block"] by auto
  ultimately show ?thesis
    unfolding stoi16_def Let_def using assms(1) by simp
qed

lemma skip_hex_prefix_leading_xdigit:
  assumes "block \<noteq> []" "isxdigit (hd block)"
  shows "takeWhile isxdigit (skip_hex_prefix block) \<noteq> []"
proof (cases "3 \<le> length block \<and> block ! 0 = CHR ''0''
         \<and> (block ! 1 = CHR ''x'' \<or> block ! 1 = CHR ''X'') \<and> isxdigit (block ! 2)")
  case True
  then have "drop 2 block = block ! 2 # drop 3 block"
    using Cons_nth_drop_Suc [of 2 block] by (simp add: numeral_3_eq_3)
  with True show ?thesis by (simp add: skip_hex_prefix_def)
next
  case False
  with assms show ?thesis by (cases block) (auto simp: skip_hex_prefix_def)
qed

lemma length_skip_hex_prefix: "length (skip_hex_prefix block) \<le> length block"
  by (simp add: skip_hex_prefix_def)

lemma digits_value_short_hex:
  assumes "length s \<le> 4"
  shows "0 \<le> digits_value 16 (takeWhile isxdigit s) \<and> digits_value 16 (takeWhile isxdigit s) < 65536"
proof -
  let ?ds = "takeWhile isxdigit s"
  have len: "length ?ds \<le> 4" using assms takeWhile_length_le [of isxdigit s] by linarith
  have "\<forall>c\<in>set ?ds. isxdigit c" by (auto dest: set_takeWhileD)
  from digits_value_hex_bound [OF this]
  have b: "0 \<le> digits_value 16 ?ds \<and> digits_value 16 ?ds < 16 ^ length ?ds" .
  have "(16::int) ^ length ?ds \<le> 16 ^ 4" using len by (intro power_increasing) auto
  with b show ?thesis by simp
qed

text \<open>A block of at most four characters that starts with a hexadecimal digit always
  converts.\<close>

lemma stoi16_leading_xdigit:
  assumes "block \<noteq> []" "isxdigit (hd block)" "length block \<le> 4"
  shows "stoi16 block = Some (digits_value 16 (takeWhile isxdigit (skip_hex_prefix block)))"
proof -
  from assms(3) length_skip_hex_prefix [of block] have "length (skip_hex_prefix block) \<le> 4" by linarith
  from digits_value_short_hex [OF this] skip_hex_prefix_leading_xdigit [OF assms(1,2)]
  show ?thesis by (simp add: stoi16_unsigned [OF assms(1,2)] Let_def)
qed

text \<open>Without a \<^verbatim>\<open>0x\<close> prefix, the value is that of the leading run of hexadecimal digits.\<close>

lemma stoi16_leading_run:
  assumes "block \<noteq> []" "isxdigit (hd block)" "length block \<le> 4"
    "\<not> (2 \<le> length block \<and> (block ! 1 = CHR ''x'' \<or> block ! 1 = CHR ''X''))"
  shows "stoi16 block = Some (digits_value 16 (takeWhile isxdigit block))"
proof -
  from assms(4) have "skip_hex_prefix block = block" by (auto simp: skip_hex_prefix_def)
  with stoi16_leading_xdigit [OF assms(1-3)] show ?thesis by simp
qed

lemma stoi16_four_xdigits:
  assumes "length block = 4" "\<forall>c\<in>set block. isxdigit c"
  shows "stoi16 block = Some (digits_value 16 block)"
proof -
  from assms have a: "block \<noteq> []" "isxdigit (hd block)" "length block \<le> 4"
    by (cases block; auto)+
  have b: "\<not> (2 \<le> length block \<and> (block ! 1 = CHR ''x'' \<or> block ! 1 = CHR ''X''))"
    using assms isxdigit_not_sign [of "block ! 1"] by auto
  have tw: "takeWhile isxdigit block = block"
    using assms(2) by (simp add: takeWhile_eq_all_conv)
  from stoi16_leading_run [OF a b] show ?thesis by (simp only: tw)
qed

lemma parse_string_loop_escape:
  assumes "pos < length json" "json ! pos = backslash"
    "parse_escape json (pos + 1) = Inr (cs, p)"
  shows "parse_string_loop json pos result = parse_string_loop json p (result @ cs)"
  using assms by (subst parse_string_loop.simps) (simp add: peek_def advance_def)

lemma parse_escape_unicode:
  assumes "pos + 6 \<le> length json" "json ! (pos + 1) = CHR ''u''"
    "stoi16 (substr json (pos + 2) 4) = Some code_point"
  shows "parse_escape json (pos + 1)
    = Inr (if code_point < 128 then [char_of code_point] else ''?'', pos + 6)"
  using assms unfolding parse_escape_def Let_def
  by (simp add: peek_def advance_def add.commute)

lemma substr_nth: "i < n \<Longrightarrow> pos + n \<le> length json \<Longrightarrow> substr json pos n ! i = json ! (pos + i)"
  by (simp add: substr_def)

lemma length_substr: "pos + n \<le> length json \<Longrightarrow> length (substr json pos n) = n"
  by (simp add: substr_def)

lemma substr_unfold4:
  "pos + 4 \<le> length json \<Longrightarrow>
   substr json pos 4 = [json ! pos, json ! (pos + 1), json ! (pos + 2), json ! (pos + 3)]"
  by (auto simp: substr_def list_eq_iff_nth_eq nth_Cons' less_Suc_eq numeral_Bit0 numeral_Bit1)

lemma unicode_escape_step:
  assumes "pos + 6 \<le> length json" "json ! pos = backslash" "json ! (pos + 1) = CHR ''u''"
    "stoi16 (substr json (pos + 2) 4) = Some cp"
  shows "parse_string_loop json pos result =
    parse_string_loop json (pos + 6) (result @ [if cp < 128 then char_of cp else CHR ''?''])"
proof -
  from assms(1) have "pos < length json" by simp
  from parse_string_loop_escape [OF this assms(2) parse_escape_unicode [OF assms(1,3,4)]]
  show ?thesis by (simp split: if_splits)
qed




text \<open>
  Claim C9, as stated, fails on one point: the value that \<^verbatim>\<open>std::stoi\<close> returns is
  not always that of the leading run of hexadecimal digits.  In base 16 \<^verbatim>\<open>strtol\<close>
  takes an \<^verbatim>\<open>0x\<close> prefix: the block \<^verbatim>\<open>0x41\<close> begins with the hexadecimal digit
  \<open>0\<close>, its leading run of hexadecimal digits is \<open>0\<close>, of value 0, and the escape
  \<^verbatim>\<open>\u0x41\<close> decodes to \<open>A\<close>, the character of code \<open>0x41\<close>.
\<close>

theorem hex_prefix_escape_value:
  \<open>parse ([quote, backslash] @ ''u0x41"'') = Inr (String ''A'')
   \<and> takeWhile isxdigit ''0x41'' = ''0''
   \<and> digits_value 16 ''0'' = 0\<close>
proof (intro conjI)
  show \<open>parse ([quote, backslash] @ ''u0x41"'') = Inr (String ''A'')\<close>
    by code_simp
  show "takeWhile isxdigit ''0x41'' = ''0''"
    by (simp add: isxdigit_def isdigit_def byte_def)
  show "digits_value 16 ''0'' = 0"
    by (simp add: digits_value_def digit_value_def isdigit_def byte_def)
qed

text \<open>
  Claim C9, amended.  The string \<^verbatim>\<open>"\u00g1"\<close>, whose escape has the non-hexadecimal
  character \<open>g\<close> among its four characters, parses without error to the one-character
  string of code 0.  In general, when the first of the four characters is a
  hexadecimal digit the conversion succeeds on the leading hexadecimal digits, taken
  after the \<^verbatim>\<open>0x\<close> prefix that \<^verbatim>\<open>strtol\<close> accepts in base 16; the character for that
  value (\<open>?\<close> when it is 128 or more) is appended and all four characters are consumed.
  So when the escape does fail, the first of the four characters is not a hexadecimal
  digit, and the error is "Invalid unicode escape" at the offset of that character.
  Without such a prefix the value is that of the leading run of hexadecimal digits.
\<close>

theorem lenient_unicode_escape:
  \<open>parse ([quote, backslash] @ ''u00g1"'') = Inr (String [CHR 0x00])
   \<and> \<not> isxdigit (CHR ''g'')
   \<and> (pos + 6 \<le> length json \<and> json ! pos = backslash \<and> json ! (pos + 1) = CHR ''u''
        \<and> isxdigit (json ! (pos + 2)) \<longrightarrow>
       (let cp = digits_value 16 (takeWhile isxdigit (skip_hex_prefix (substr json (pos + 2) 4)))
        in stoi16 (substr json (pos + 2) 4) = Some cp
           \<and> parse_string_loop json pos result =
               parse_string_loop json (pos + 6)
                 (result @ [if cp < 128 then char_of cp else CHR ''?''])))
   \<and> (pos + 6 \<le> length json \<and> json ! (pos + 1) = CHR ''u''
        \<and> parse_escape json (pos + 1) = Inl e \<longrightarrow>
       \<not> isxdigit (json ! (pos + 2)) \<and> e = JsonParseError ''Invalid unicode escape'' (pos + 2))
   \<and> (length block = 4 \<and> isxdigit (hd block)
        \<and> block ! 1 \<noteq> CHR ''x'' \<and> block ! 1 \<noteq> CHR ''X'' \<longrightarrow>
       stoi16 block = Some (digits_value 16 (takeWhile isxdigit block)))\<close>
proof (intro conjI impI)
  show \<open>parse ([quote, backslash] @ ''u00g1"'') = Inr (String [CHR 0x00])\<close>
    by code_simp
  show "\<not> isxdigit (CHR ''g'')"
    by (simp add: isxdigit_def isdigit_def byte_def)
next
  assume a: "pos + 6 \<le> length json \<and> json ! pos = backslash \<and> json ! (pos + 1) = CHR ''u''
        \<and> isxdigit (json ! (pos + 2))"
  let ?block = "substr json (pos + 2) 4"
  from a have len: "length ?block = 4" by (intro length_substr) simp
  then have ne: "?block \<noteq> []" by auto
  from a have "?block ! 0 = json ! (pos + 2)" using substr_nth [of 0 4 "pos + 2" json] by simp
  with a ne have hd: "isxdigit (hd ?block)" by (simp add: hd_conv_nth)
  from stoi16_leading_xdigit [OF ne hd] len
  have st: "stoi16 ?block = Some (digits_value 16 (takeWhile isxdigit (skip_hex_prefix ?block)))"
    by simp
  from a unicode_escape_step [OF _ _ _ st, of result] st
  show "let cp = digits_value 16 (takeWhile isxdigit (skip_hex_prefix ?block))
        in stoi16 ?block = Some cp
           \<and> parse_string_loop json pos result =
               parse_string_loop json (pos + 6)
                 (result @ [if cp < 128 then char_of cp else CHR ''?''])"
    by (simp add: Let_def)
next
  assume a: "pos + 6 \<le> length json \<and> json ! (pos + 1) = CHR ''u''
        \<and> parse_escape json (pos + 1) = Inl e"
  let ?block = "substr json (pos + 2) 4"
  from a have len: "length ?block = 4" by (intro length_substr) simp
  then have ne: "?block \<noteq> []" by auto
  from a have b0: "?block ! 0 = json ! (pos + 2)" using substr_nth [of 0 4 "pos + 2" json] by simp
  have "parse_escape json (pos + 1) = (case stoi16 ?block of
       None \<Rightarrow> Inl (JsonParseError ''Invalid unicode escape'' (pos + 2))
     | Some cp \<Rightarrow> Inr (if cp < 128 then [char_of cp] else ''?'', pos + 6))"
    using a unfolding parse_escape_def Let_def
    by (simp add: peek_def advance_def add.commute split: option.splits)
  with a have none: "stoi16 ?block = None" and e: "e = JsonParseError ''Invalid unicode escape'' (pos + 2)"
    by (auto split: option.splits)
  have "\<not> isxdigit (hd ?block)"
    using stoi16_leading_xdigit [OF ne _ ] len none by auto
  with b0 ne show "\<not> isxdigit (json ! (pos + 2))"
    by (simp add: hd_conv_nth)
  from e show "e = JsonParseError ''Invalid unicode escape'' (pos + 2)" .
next
  assume a: "length block = 4 \<and> isxdigit (hd block)
        \<and> block ! 1 \<noteq> CHR ''x'' \<and> block ! 1 \<noteq> CHR ''X''"
  then have "block \<noteq> []" by auto
  from stoi16_leading_run [OF this] a
  show "stoi16 block = Some (digits_value 16 (takeWhile isxdigit block))" by simp
qed

text \<open>The escapes \<^verbatim>\<open>\u00g1\<close> (accepted), \<^verbatim>\<open>\ug000\<close> (rejected) and \<^verbatim>\<open>\uff z\<close>, and
  the block \<open>1gab\<close>.\<close>

theorem lenient_unicode_escape_witness:
  \<open>parse_string_loop ([quote, backslash] @ ''u00g1"'') 1 []
     = parse_string_loop ([quote, backslash] @ ''u00g1"'') 7 [CHR 0x00]
   \<and> parse_escape ([quote, backslash] @ ''ug000"'') 2 = Inl (JsonParseError ''Invalid unicode escape'' 3)
   \<and> stoi16 ''1gab'' = Some 1
   \<and> parse ([quote, backslash] @ ''uff z"'') = Inr (String ''?'')\<close>
proof -
  have x: "isxdigit (CHR ''0'')" "isxdigit (CHR ''1'')" "\<not> isxdigit (CHR ''g'')"
    by (simp_all add: isxdigit_def isdigit_def byte_def)
  have e: \<open>parse_escape ([quote, backslash] @ ''ug000"'') 2 = Inl (JsonParseError ''Invalid unicode escape'' 3)\<close>
    by code_simp
  have v: "digits_value 16 ''00'' = 0" "digits_value 16 ''1'' = 1"
    by (simp_all add: digits_value_def digit_value_def isdigit_def byte_def)
  have p: \<open>parse ([quote, backslash] @ ''uff z"'') = Inr (String ''?'')\<close>
    by code_simp
  have c0: "char_of (0 :: int) = CHR 0x00"
    by code_simp
  from lenient_unicode_escape [where pos = 1 and json = \<open>[quote, backslash] @ ''u00g1"''\<close>
      and result = "[]" and block = "''1gab''" and e = undefined_behaviour] e p c0
  show ?thesis
    by (simp add: x v substr_def skip_hex_prefix_def Let_def)
qed

section \<open>The number grammar\<close>

subsection \<open>The cursor as a suffix of the input\<close>

lemma peek_drop: "peek json pos = (case drop pos json of [] \<Rightarrow> CHR 0x00 | c # cs \<Rightarrow> c)"
  by (auto simp: peek_def hd_drop_conv_nth [symmetric] split: list.splits dest: arg_cong [where f = hd])

lemma peek_append: "drop pos json = c # r \<Longrightarrow> peek json pos = c"
  by (simp add: peek_drop)

lemma peek_end: "drop pos json = [] \<Longrightarrow> peek json pos = CHR 0x00"
  by (simp add: peek_drop)

lemma advance_drop: "drop pos json = c # r \<Longrightarrow> advance json pos = pos + 1 \<and> drop (pos + 1) json = r"
proof -
  assume a: "drop pos json = c # r"
  then have "pos < length json" by (cases "pos < length json") auto
  moreover have "drop (pos + 1) json = tl (drop pos json)" by (simp add: drop_Suc tl_drop)
  ultimately show ?thesis using a by (simp add: advance_def)
qed

lemma not_isdigit_nul: "\<not> isdigit (CHR 0x00)"
  by (simp add: isdigit_def byte_def)

lemma skip_digits_takeWhile:
  "skip_digits json pos = pos + length (takeWhile isdigit (drop pos json))"
proof (induction json pos rule: skip_digits.induct)
  case (1 json pos)
  show ?case
  proof (cases "pos < length json")
    case True
    then have d: "drop pos json = json ! pos # drop (Suc pos) json"
      by (simp add: Cons_nth_drop_Suc)
    with True 1 show ?thesis
      by (subst skip_digits.simps) (simp add: peek_def advance_def)
  next
    case False
    then show ?thesis by (subst skip_digits.simps) simp
  qed
qed

lemma drop_takeWhile: "drop (pos + length (takeWhile P (drop pos xs))) xs = dropWhile P (drop pos xs)"
proof -
  have "drop (length (takeWhile P (drop pos xs))) (drop pos xs) = dropWhile P (drop pos xs)"
    by (simp add: dropWhile_eq_drop)
  then show ?thesis by (simp add: add.commute)
qed

text \<open>The loop over digits on a known run of digits.\<close>

lemma skip_digits_run:
  assumes "drop pos json = ds @ r" "list_all isdigit ds" "r = [] \<or> \<not> isdigit (hd r)"
  shows "skip_digits json pos = pos + length ds \<and> drop (pos + length ds) json = r"
proof -
  from assms(2,3) have tw: "takeWhile isdigit (ds @ r) = ds"
    by (cases r) (auto simp: list_all_iff takeWhile_append2 takeWhile_eq_all_conv [THEN iffD2])
  have "drop (pos + length ds) json = drop (length ds) (drop pos json)" by (simp add: add.commute)
  with assms(1) tw show ?thesis by (simp add: skip_digits_takeWhile)
qed

lemma hd_not_digit_peek:
  assumes "drop pos json = r" "r = [] \<or> \<not> isdigit (hd r)"
  shows "\<not> isdigit (peek json pos)"
  using assms by (cases r) (auto simp: peek_drop not_isdigit_nul)

lemma isdigit_chars:
  "isdigit c \<Longrightarrow> c \<noteq> CHR ''.'' \<and> c \<noteq> CHR ''e'' \<and> c \<noteq> CHR ''E'' \<and> c \<noteq> CHR ''+'' \<and> c \<noteq> CHR ''-''
     \<and> \<not> isspace c"
  by (auto simp: isdigit_def isspace_def byte_def)

lemma isdigit_0: "isdigit (CHR ''0'')"
  by (simp add: isdigit_def byte_def)

subsection \<open>Each stage of the scanner accepts its part of the grammar\<close>

lemma scan_integer_complete:
  assumes "drop pos json = ip @ r" "spec_integer_part ip" "r = [] \<or> \<not> isdigit (hd r)"
  shows "scan_integer json pos = Inr (pos + length ip) \<and> drop (pos + length ip) json = r"
proof (cases "ip = ''0''")
  case True
  with assms(1) have d: "drop pos json = CHR ''0'' # r" by simp
  from peek_append [OF d] advance_drop [OF d] True show ?thesis
    by (simp add: scan_integer_def)
next
  case False
  with assms(2) have ip: "ip \<noteq> []" "list_all isdigit ip" "hd ip \<noteq> CHR ''0''"
    by (auto simp: spec_integer_part_def)
  then obtain c cs where c: "ip = c # cs" by (cases ip) auto
  with assms(1) have "drop pos json = c # cs @ r" by simp
  from peek_append [OF this] have "peek json pos = c" .
  with ip c skip_digits_run [OF assms(1) ip(2) assms(3)] show ?thesis
    by (simp add: scan_integer_def)
qed

lemma scan_fraction_complete:
  assumes "drop pos json = fp @ r" "fp = [] \<or> spec_fraction_part fp"
    "fp = [] \<longrightarrow> r = [] \<or> hd r \<noteq> CHR ''.''" "r = [] \<or> \<not> isdigit (hd r)"
  shows "scan_fraction json pos = Inr (pos + length fp) \<and> drop (pos + length fp) json = r"
proof (cases "fp = []")
  case True
  with assms have "peek json pos \<noteq> CHR ''.''" by (cases r) (auto simp: peek_drop)
  with True assms(1) show ?thesis by (simp add: scan_fraction_def)
next
  case False
  with assms(2) obtain ds where fp: "fp = CHR ''.'' # ds" "ds \<noteq> []" "list_all isdigit ds"
    by (auto simp: spec_fraction_part_def)
  with assms(1) have d: "drop pos json = CHR ''.'' # ds @ r" by simp
  from advance_drop [OF d] have adv: "advance json pos = pos + 1" "drop (pos + 1) json = ds @ r"
    by simp_all
  from fp obtain c cs where c: "ds = c # cs" "isdigit c" by (cases ds) auto
  with adv have "peek json (pos + 1) = c" by (simp add: peek_drop)
  with c peek_append [OF d] adv skip_digits_run [OF adv(2) fp(3) assms(4)] fp show ?thesis
    by (simp add: scan_fraction_def Let_def)
qed

lemma scan_exponent_complete:
  assumes "drop pos json = ep @ r" "ep = [] \<or> spec_exponent_part ep"
    "ep = [] \<longrightarrow> r = [] \<or> (hd r \<noteq> CHR ''e'' \<and> hd r \<noteq> CHR ''E'')" "r = [] \<or> \<not> isdigit (hd r)"
  shows "scan_exponent json pos = Inr (pos + length ep) \<and> drop (pos + length ep) json = r"
proof (cases "ep = []")
  case True
  with assms have "peek json pos \<noteq> CHR ''e'' \<and> peek json pos \<noteq> CHR ''E''"
    by (cases r) (auto simp: peek_drop)
  with True assms(1) show ?thesis by (simp add: scan_exponent_def)
next
  case False
  with assms(2) obtain marker sign ds where ep: "ep = marker # sign @ ds"
    "marker = CHR ''e'' \<or> marker = CHR ''E''" "sign = [] \<or> sign = ''+'' \<or> sign = ''-''"
    "ds \<noteq> []" "list_all isdigit ds"
    by (auto simp: spec_exponent_part_def)
  with assms(1) have d: "drop pos json = marker # sign @ ds @ r" by simp
  from advance_drop [OF d] have adv: "advance json pos = pos + 1" "drop (pos + 1) json = sign @ ds @ r"
    by simp_all
  from ep obtain c cs where c: "ds = c # cs" "isdigit c" by (cases ds) auto
  define p' where "p' = (if peek json (pos + 1) = CHR ''+'' \<or> peek json (pos + 1) = CHR ''-''
             then advance json (pos + 1) else pos + 1)"
  have p': "p' = pos + 1 + length sign \<and> drop p' json = ds @ r"
  proof (cases "sign = []")
    case True
    with adv c have "peek json (pos + 1) = c" by (simp add: peek_drop)
    with c isdigit_chars [of c] True adv show ?thesis by (simp add: p'_def)
  next
    case False
    with ep(3) obtain s where s: "sign = [s]" "s = CHR ''+'' \<or> s = CHR ''-''" by auto
    with adv have d1: "drop (pos + 1) json = s # ds @ r" by simp
    from peek_append [OF d1] advance_drop [OF d1] s show ?thesis by (auto simp: p'_def)
  qed
  note p1 = p' [THEN conjunct1] and p2 = p' [THEN conjunct2]
  from p2 c have "drop p' json = c # cs @ r" by simp
  from peek_append [OF this] have pk: "peek json p' = c" .
  have run: "skip_digits json p' = p' + length ds \<and> drop (p' + length ds) json = r"
    by (rule skip_digits_run [OF p2 ep(5) assms(4)])
  have "scan_exponent json pos = Inr (skip_digits json p')"
    using peek_append [OF d] ep(2) adv(1) pk c(2)
    by (auto simp: scan_exponent_def Let_def p'_def)
  moreover have "pos + length ep = p' + length ds" using p1 ep(1) by simp
  ultimately show ?thesis using run by simp
qed

subsection \<open>Each stage accepts nothing else\<close>

lemma takeWhile_run: "drop pos json = takeWhile P (drop pos json) @ drop (pos + length (takeWhile P (drop pos json))) json"
  by (simp add: drop_takeWhile)

lemma scan_integer_sound:
  assumes "scan_integer json pos = Inr p"
  shows "\<exists>ip. spec_integer_part ip \<and> drop pos json = ip @ drop p json \<and> p = pos + length ip
           \<and> (ip \<noteq> ''0'' \<longrightarrow> \<not> isdigit (peek json p))"
proof (cases "peek json pos = CHR ''0''")
  case True
  then obtain r where d: "drop pos json = CHR ''0'' # r"
    by (auto simp: peek_drop split: list.splits)
  from assms True advance_drop [OF d] have "p = pos + 1" "drop p json = r"
    by (simp_all add: scan_integer_def)
  with d show ?thesis by (intro exI [of _ "''0''"]) (simp add: spec_integer_part_def)
next
  case False
  with assms have dg: "isdigit (peek json pos)" and p: "p = skip_digits json pos"
    by (auto simp: scan_integer_def split: if_splits)
  let ?ip = "takeWhile isdigit (drop pos json)"
  from dg obtain c r where d: "drop pos json = c # r" "c = peek json pos"
    by (auto simp: peek_drop not_isdigit_nul split: list.splits)
  with dg False have "?ip \<noteq> []" "hd ?ip \<noteq> CHR ''0''" by auto
  moreover have "list_all isdigit ?ip" by (auto simp: list_all_iff dest: set_takeWhileD)
  moreover have "drop pos json = ?ip @ drop p json" "p = pos + length ?ip"
    using p takeWhile_run [of pos json isdigit] by (simp_all add: skip_digits_takeWhile)
  moreover have "\<not> isdigit (peek json p)"
  proof -
    have "drop p json = dropWhile isdigit (drop pos json)"
      using p by (simp add: skip_digits_takeWhile drop_takeWhile)
    then show ?thesis
      using hd_dropWhile [of isdigit "drop pos json"]
      by (cases "dropWhile isdigit (drop pos json)") (auto simp: peek_drop not_isdigit_nul)
  qed
  ultimately show ?thesis by (intro exI [of _ ?ip]) (simp add: spec_integer_part_def)
qed

lemma digits_run_sound:
  assumes "isdigit (peek json q)"
  shows "\<exists>ds. ds \<noteq> [] \<and> list_all isdigit ds \<and> drop q json = ds @ drop (skip_digits json q) json
           \<and> skip_digits json q = q + length ds"
proof -
  let ?ds = "takeWhile isdigit (drop q json)"
  from assms obtain c r where "drop q json = c # r" "isdigit c"
    by (auto simp: peek_drop not_isdigit_nul split: list.splits)
  then have "?ds \<noteq> []" by simp
  moreover have "list_all isdigit ?ds" by (auto simp: list_all_iff dest: set_takeWhileD)
  moreover have "drop q json = ?ds @ drop (skip_digits json q) json"
    using takeWhile_run [of q json isdigit] by (simp add: skip_digits_takeWhile)
  ultimately show ?thesis by (intro exI [of _ ?ds]) (simp add: skip_digits_takeWhile)
qed

lemma peek_obtain:
  assumes "peek json pos = c" "c \<noteq> CHR 0x00"
  obtains r where "drop pos json = c # r"
  using assms by (auto simp: peek_drop split: list.splits)

lemma peek_nonzero: "peek json pos \<noteq> CHR 0x00 \<Longrightarrow> \<exists>r. drop pos json = peek json pos # r"
  by (auto simp: peek_drop split: list.splits)

lemma scan_fraction_sound:
  assumes "scan_fraction json pos = Inr p"
  shows "\<exists>fp. (fp = [] \<or> spec_fraction_part fp) \<and> drop pos json = fp @ drop p json
           \<and> p = pos + length fp"
proof (cases "peek json pos = CHR ''.''")
  case False
  with assms show ?thesis by (intro exI [of _ "[]"]) (simp add: scan_fraction_def)
next
  case True
  then obtain r where d: "drop pos json = CHR ''.'' # r" by (rule peek_obtain) simp
  from advance_drop [OF d] have adv: "advance json pos = pos + 1" "drop (pos + 1) json = r"
    by simp_all
  from assms True adv have dg: "isdigit (peek json (pos + 1))" and p: "p = skip_digits json (pos + 1)"
    by (auto simp: scan_fraction_def Let_def split: if_splits)
  from digits_run_sound [OF dg] obtain ds where ds: "ds \<noteq> []" "list_all isdigit ds"
    "drop (pos + 1) json = ds @ drop p json" "p = pos + 1 + length ds"
    using p by auto
  with d adv show ?thesis
    by (intro exI [of _ "CHR ''.'' # ds"]) (auto simp: spec_fraction_part_def)
qed

lemma scan_exponent_sound:
  assumes "scan_exponent json pos = Inr p"
  shows "\<exists>ep. (ep = [] \<or> spec_exponent_part ep) \<and> drop pos json = ep @ drop p json
           \<and> p = pos + length ep"
proof (cases "peek json pos = CHR ''e'' \<or> peek json pos = CHR ''E''")
  case False
  with assms show ?thesis by (intro exI [of _ "[]"]) (simp add: scan_exponent_def)
next
  case True
  then have "peek json pos \<noteq> CHR 0x00" by auto
  from peek_nonzero [OF this] True obtain marker r where d: "drop pos json = marker # r"
    and m: "marker = CHR ''e'' \<or> marker = CHR ''E''"
    by auto
  from advance_drop [OF d] have adv: "advance json pos = pos + 1" "drop (pos + 1) json = r"
    by simp_all
  define p' where "p' = (if peek json (pos + 1) = CHR ''+'' \<or> peek json (pos + 1) = CHR ''-''
             then advance json (pos + 1) else pos + 1)"
  from assms True adv have dg: "isdigit (peek json p')" and p: "p = skip_digits json p'"
    by (auto simp: scan_exponent_def Let_def p'_def split: if_splits)
  have "\<exists>sign. (sign = [] \<or> sign = ''+'' \<or> sign = ''-'') \<and> r = sign @ drop p' json
          \<and> p' = pos + 1 + length sign"
  proof (cases "peek json (pos + 1) = CHR ''+'' \<or> peek json (pos + 1) = CHR ''-''")
    case False
    with adv show ?thesis by (intro exI [of _ "[]"]) (simp add: p'_def)
  next
    case True
    then have "peek json (pos + 1) \<noteq> CHR 0x00" by auto
    from peek_nonzero [OF this] True obtain s r' where d1: "drop (pos + 1) json = s # r'"
      and s: "s = CHR ''+'' \<or> s = CHR ''-''"
      by auto
    from advance_drop [OF d1] True adv d1 s show ?thesis
      by (intro exI [of _ "[s]"]) (auto simp: p'_def)
  qed
  then obtain sign where sign: "sign = [] \<or> sign = ''+'' \<or> sign = ''-''"
    "r = sign @ drop p' json" "p' = pos + 1 + length sign" by auto
  from digits_run_sound [OF dg] obtain ds where ds: "ds \<noteq> []" "list_all isdigit ds"
    "drop p' json = ds @ drop p json" "p = p' + length ds"
    using p by auto
  have "spec_exponent_part (marker # sign @ ds)"
    unfolding spec_exponent_part_def using m sign(1) ds(1,2) by blast
  moreover have "drop pos json = (marker # sign @ ds) @ drop p json"
    using d sign(2) ds(3) by simp
  moreover have "p = pos + length (marker # sign @ ds)" using sign(3) ds(4) by simp
  ultimately show ?thesis by blast
qed

subsection \<open>\<open>parse_number\<close> against the grammar\<close>

lemma part_heads:
  "spec_fraction_part fp \<Longrightarrow> fp \<noteq> [] \<and> hd fp = CHR ''.''"
  "spec_exponent_part ep \<Longrightarrow> ep \<noteq> [] \<and> (hd ep = CHR ''e'' \<or> hd ep = CHR ''E'')"
  "spec_integer_part ip \<Longrightarrow> ip \<noteq> [] \<and> isdigit (hd ip)"
  by (cases ip; auto simp: spec_fraction_part_def spec_exponent_part_def spec_integer_part_def isdigit_0)+

lemma not_isdigit_marks:
  "\<not> isdigit (CHR ''.'')" "\<not> isdigit (CHR ''e'')" "\<not> isdigit (CHR ''E'')" "\<not> isdigit (CHR ''-'')"
  by (simp_all add: isdigit_def byte_def)

lemma scan_sign:
  assumes "drop start json = sign @ c # r" "sign = [] \<or> sign = ''-''" "isdigit c"
  shows "(if peek json start = CHR ''-'' then advance json start else start) = start + length sign
    \<and> drop (start + length sign) json = c # r"
proof (cases "sign = []")
  case True
  with assms peek_append [of start json c r] isdigit_chars [of c] show ?thesis by simp
next
  case False
  with assms have d: "drop start json = CHR ''-'' # c # r" and s: "sign = ''-''" by auto
  from peek_append [OF d] advance_drop [OF d] s show ?thesis by simp
qed

lemma parse_number_complete:
  assumes "drop start json = w @ r" "spec_number w" "ends_number r"
  shows "parse_number json start =
    (case stod w of
       None \<Rightarrow> Inl (JsonParseError ''Invalid number format'' start)
     | Some d \<Rightarrow> Inr (Number d, start + length w))"
proof -
  from assms(2) obtain sign ip fp ep where w: "w = sign @ ip @ fp @ ep"
    and sign: "sign = [] \<or> sign = ''-''" and ip: "spec_integer_part ip"
    and fp: "fp = [] \<or> spec_fraction_part fp" and ep: "ep = [] \<or> spec_exponent_part ep"
    by (auto simp: spec_number_def)
  from part_heads(3) [OF ip] obtain c cs where c: "ip = c # cs" "isdigit c" by (cases ip) auto
  define p0 where "p0 = start + length sign"
  define p1 where "p1 = p0 + length ip"
  define p2 where "p2 = p1 + length fp"
  define p3 where "p3 = p2 + length ep"
  have r3: "r = [] \<or> \<not> isdigit (hd r)" using assms(3) by (auto simp: ends_number_def)
  have r2: "ep @ r = [] \<or> \<not> isdigit (hd (ep @ r))"
    using ep r3 part_heads(2) [of ep] not_isdigit_marks by (cases "ep = []") auto
  have r1: "fp @ ep @ r = [] \<or> \<not> isdigit (hd (fp @ ep @ r))"
    using fp r2 part_heads(1) [of fp] not_isdigit_marks by (cases "fp = []") auto
  have f0: "fp = [] \<longrightarrow> ep @ r = [] \<or> hd (ep @ r) \<noteq> CHR ''.''"
    using ep assms(3) part_heads(2) [of ep] by (cases "ep = []") (auto simp: ends_number_def)
  have e0: "ep = [] \<longrightarrow> r = [] \<or> (hd r \<noteq> CHR ''e'' \<and> hd r \<noteq> CHR ''E'')"
    using assms(3) by (auto simp: ends_number_def)
  from assms(1) w c have "drop start json = sign @ c # (cs @ fp @ ep @ r)" by simp
  from scan_sign [OF this sign c(2)] c
  have s0: "(if peek json start = CHR ''-'' then advance json start else start) = p0"
    and d0: "drop p0 json = ip @ fp @ ep @ r"
    by (simp_all add: p0_def)
  from scan_integer_complete [OF d0 ip r1]
  have s1: "scan_integer json p0 = Inr p1" and d1: "drop p1 json = fp @ ep @ r"
    by (simp_all add: p1_def)
  from scan_fraction_complete [OF d1 fp f0 r2]
  have s2: "scan_fraction json p1 = Inr p2" and d2: "drop p2 json = ep @ r"
    by (simp_all add: p2_def)
  from scan_exponent_complete [OF d2 ep e0 r3]
  have s3: "scan_exponent json p2 = Inr p3" by (simp add: p3_def)
  have len: "p3 = start + length w" by (simp add: p3_def p2_def p1_def p0_def w)
  with assms(1) have "substr json start (p3 - start) = w" by (simp add: substr_def)
  with s0 s1 s2 s3 len show ?thesis
    by (simp add: parse_number_def Let_def split: option.splits)
qed

lemma parse_number_sound:
  assumes "parse_number json start = Inr (v, p)"
  shows "\<exists>w d. v = Number d \<and> spec_number w \<and> stod w = Some d
           \<and> drop start json = w @ drop p json \<and> p = start + length w"
proof -
  define p0 where "p0 = (if peek json start = CHR ''-'' then advance json start else start)"
  from assms obtain p1 p2 d where s1: "scan_integer json p0 = Inr p1"
    and s2: "scan_fraction json p1 = Inr p2" and s3: "scan_exponent json p2 = Inr p"
    and st: "stod (substr json start (p - start)) = Some d" and v: "v = Number d"
    by (auto simp: parse_number_def Let_def p0_def split: sum.splits option.splits)
  have "\<exists>sign. (sign = [] \<or> sign = ''-'') \<and> drop start json = sign @ drop p0 json
          \<and> p0 = start + length sign"
  proof (cases "peek json start = CHR ''-''")
    case False
    then show ?thesis by (intro exI [of _ "[]"]) (simp add: p0_def)
  next
    case True
    then obtain r where d: "drop start json = CHR ''-'' # r" by (rule peek_obtain) simp
    from advance_drop [OF d] True d show ?thesis
      by (intro exI [of _ "''-''"]) (simp add: p0_def)
  qed
  then obtain sign where sign: "sign = [] \<or> sign = ''-''" "drop start json = sign @ drop p0 json"
    "p0 = start + length sign" by auto
  from scan_integer_sound [OF s1] obtain ip where ip: "spec_integer_part ip"
    "drop p0 json = ip @ drop p1 json" "p1 = p0 + length ip" by auto
  from scan_fraction_sound [OF s2] obtain fp where fp: "fp = [] \<or> spec_fraction_part fp"
    "drop p1 json = fp @ drop p2 json" "p2 = p1 + length fp" by auto
  from scan_exponent_sound [OF s3] obtain ep where ep: "ep = [] \<or> spec_exponent_part ep"
    "drop p2 json = ep @ drop p json" "p = p2 + length ep" by auto
  let ?w = "sign @ ip @ fp @ ep"
  have dw: "drop start json = ?w @ drop p json" using sign(2) ip(2) fp(2) ep(2) by simp
  have len: "p = start + length ?w" using sign(3) ip(3) fp(3) ep(3) by simp
  from dw len have "substr json start (p - start) = ?w" by (simp add: substr_def)
  with st have "stod ?w = Some d" by simp
  moreover have "spec_number ?w" unfolding spec_number_def using sign(1) ip(1) fp(1) ep(1) by blast
  ultimately show ?thesis using v dw len by blast
qed

lemma parse_number_fraction_error:
  assumes "drop start json = sign @ ip @ CHR ''.'' # r" "sign = [] \<or> sign = ''-''"
    "spec_integer_part ip" "r = [] \<or> \<not> isdigit (hd r)"
  shows "parse_number json start =
    Inl (JsonParseError ''Invalid number: expected digit after decimal point''
          (start + length sign + length ip + 1))"
proof -
  from part_heads(3) [OF assms(3)] obtain c cs where c: "ip = c # cs" "isdigit c"
    by (cases ip) auto
  define p0 where "p0 = start + length sign"
  define p1 where "p1 = p0 + length ip"
  from assms(1) c have "drop start json = sign @ c # (cs @ CHR ''.'' # r)" by simp
  from scan_sign [OF this assms(2) c(2)] c
  have s0: "(if peek json start = CHR ''-'' then advance json start else start) = p0"
    and d0: "drop p0 json = ip @ CHR ''.'' # r"
    by (simp_all add: p0_def)
  have "CHR ''.'' # r = [] \<or> \<not> isdigit (hd (CHR ''.'' # r))" by (simp add: not_isdigit_marks)
  from scan_integer_complete [OF d0 assms(3) this]
  have s1: "scan_integer json p0 = Inr p1" and d1: "drop p1 json = CHR ''.'' # r"
    by (simp_all add: p1_def)
  from advance_drop [OF d1] have adv: "advance json p1 = p1 + 1" "drop (p1 + 1) json = r"
    by simp_all
  from hd_not_digit_peek [OF adv(2) assms(4)] peek_append [OF d1] adv(1)
  have "scan_fraction json p1 =
    Inl (JsonParseError ''Invalid number: expected digit after decimal point'' (p1 + 1))"
    by (simp add: scan_fraction_def Let_def)
  with s0 s1 show ?thesis by (simp add: parse_number_def Let_def p1_def p0_def)
qed

lemma parse_number_exponent_error:
  assumes "drop start json = sign @ ip @ fp @ marker # esign @ r" "sign = [] \<or> sign = ''-''"
    "spec_integer_part ip" "fp = [] \<or> spec_fraction_part fp"
    "marker = CHR ''e'' \<or> marker = CHR ''E''"
    "esign = [] \<or> esign = ''+'' \<or> esign = ''-''"
    "r = [] \<or> \<not> isdigit (hd r)"
    "esign = [] \<longrightarrow> r = [] \<or> (hd r \<noteq> CHR ''+'' \<and> hd r \<noteq> CHR ''-'')"
  shows "parse_number json start =
    Inl (JsonParseError ''Invalid number: expected digit in exponent''
          (start + length sign + length ip + length fp + 1 + length esign))"
proof -
  from part_heads(3) [OF assms(3)] obtain c cs where c: "ip = c # cs" "isdigit c"
    by (cases ip) auto
  define p0 where "p0 = start + length sign"
  define p1 where "p1 = p0 + length ip"
  define p2 where "p2 = p1 + length fp"
  let ?t = "marker # esign @ r"
  have m: "\<not> isdigit marker" "marker \<noteq> CHR ''.''"
    using assms(5) not_isdigit_marks by auto
  have r2: "?t = [] \<or> \<not> isdigit (hd ?t)" using m by simp
  have r1: "fp @ ?t = [] \<or> \<not> isdigit (hd (fp @ ?t))"
    using assms(4) m part_heads(1) [of fp] not_isdigit_marks by (cases "fp = []") auto
  have f0: "fp = [] \<longrightarrow> ?t = [] \<or> hd ?t \<noteq> CHR ''.''" using m by simp
  from assms(1) c have "drop start json = sign @ c # (cs @ fp @ ?t)" by simp
  from scan_sign [OF this assms(2) c(2)] c
  have s0: "(if peek json start = CHR ''-'' then advance json start else start) = p0"
    and d0: "drop p0 json = ip @ fp @ ?t"
    by (simp_all add: p0_def)
  from scan_integer_complete [OF d0 assms(3) r1]
  have s1: "scan_integer json p0 = Inr p1" and d1: "drop p1 json = fp @ ?t"
    by (simp_all add: p1_def)
  from scan_fraction_complete [OF d1 assms(4) f0 r2]
  have s2: "scan_fraction json p1 = Inr p2" and d2: "drop p2 json = ?t"
    by (simp_all add: p2_def)
  from advance_drop [OF d2] have adv: "advance json p2 = p2 + 1" "drop (p2 + 1) json = esign @ r"
    by simp_all
  define p' where "p' = (if peek json (p2 + 1) = CHR ''+'' \<or> peek json (p2 + 1) = CHR ''-''
             then advance json (p2 + 1) else p2 + 1)"
  have p': "p' = p2 + 1 + length esign \<and> drop p' json = r"
  proof (cases "esign = []")
    case True
    with adv assms(8) have "peek json (p2 + 1) \<noteq> CHR ''+'' \<and> peek json (p2 + 1) \<noteq> CHR ''-''"
      by (cases r) (auto simp: peek_drop)
    with True adv show ?thesis by (simp add: p'_def)
  next
    case False
    with assms(6) obtain s where s: "esign = [s]" "s = CHR ''+'' \<or> s = CHR ''-''" by auto
    with adv have d3: "drop (p2 + 1) json = s # r" by simp
    from peek_append [OF d3] advance_drop [OF d3] s show ?thesis by (auto simp: p'_def)
  qed
  from hd_not_digit_peek [OF p' [THEN conjunct2] assms(7)] peek_append [OF d2] assms(5) adv(1)
  have "scan_exponent json p2 =
    Inl (JsonParseError ''Invalid number: expected digit in exponent'' p')"
    by (auto simp: scan_exponent_def Let_def p'_def)
  with s0 s1 s2 p' [THEN conjunct1] show ?thesis
    by (simp add: parse_number_def Let_def p2_def p1_def p0_def)
qed

subsection \<open>From \<open>parse_number\<close> to \<open>parse\<close>\<close>

lemma skip_whitespace_run:
  assumes "drop pos json = ws @ r" "list_all isspace ws" "r = [] \<or> \<not> isspace (hd r)"
  shows "skip_whitespace json pos = pos + length ws"
proof -
  from assms(2,3) have "takeWhile isspace (ws @ r) = ws"
    by (cases r) (auto simp: list_all_iff takeWhile_append2 takeWhile_eq_all_conv [THEN iffD2])
  with assms(1) show ?thesis by (simp add: skip_whitespace_takeWhile)
qed

lemma skip_whitespace_idem: "skip_whitespace json (skip_whitespace json pos) = skip_whitespace json pos"
proof -
  let ?r = "dropWhile isspace (drop pos json)"
  have "takeWhile isspace ?r = []"
    using hd_dropWhile [of isspace "drop pos json"]
    by (cases ?r) (auto simp del: dropWhile_eq_Nil_conv)
  moreover have "drop (skip_whitespace json pos) json = ?r"
    by (simp add: skip_whitespace_takeWhile drop_takeWhile)
  ultimately show ?thesis
    using skip_whitespace_takeWhile [of json "skip_whitespace json pos"] by simp
qed

lemma number_start_chars:
  assumes "c = CHR ''-'' \<or> isdigit c"
  shows "\<not> isspace c" "c \<noteq> CHR ''n''" "c \<noteq> CHR ''t''" "c \<noteq> CHR ''f''" "c \<noteq> quote"
    "c \<noteq> CHR ''[''" "c \<noteq> CHR ''{''"
  using assms by (auto simp: isdigit_def isspace_def byte_def)

lemma parse_number_led:
  assumes "json = ws @ c # r" "list_all isspace ws" "c = CHR ''-'' \<or> isdigit c"
  shows "parse json =
    (case parse_number json (length ws) of
       Inl e \<Rightarrow> Inl e
     | Inr (v, p1) \<Rightarrow>
         if skip_whitespace json p1 < length json then
           Inl (JsonParseError ''Unexpected characters after JSON value'' (skip_whitespace json p1))
         else Inr v)"
proof -
  note nc = number_start_chars [OF assms(3)]
  from assms(1) have d: "drop 0 json = ws @ c # r" by simp
  have sk: "skip_whitespace json 0 = length ws"
    using skip_whitespace_run [OF d assms(2)] nc(1) by simp
  then have sk': "skip_whitespace json (length ws) = length ws"
    using skip_whitespace_idem [of json 0] by simp
  from assms(1) have cur: "current json (length ws) = Inr c" by (simp add: current_def)
  have "parse_value json (length ws) = parse_number json (length ws)"
    using nc assms(3) by (subst parse_value.simps) (auto simp: sk' cur)
  then show ?thesis by (simp add: parse_def sk Let_def split: sum.splits prod.splits)
qed

lemma parse_container_kinds:
  "parse_value json pos = Inr (v, p) \<Longrightarrow> True"
  "parse_array json pos = Inr (v, p) \<Longrightarrow> is_array v"
  "parse_array_loop json pos arr = Inr (v, p) \<Longrightarrow> is_array v"
  "parse_object json pos = Inr (v, p) \<Longrightarrow> is_object v"
  "parse_object_loop json pos obj = Inr (v, p) \<Longrightarrow> is_object v"
proof (induction json pos and json pos and json pos arr and json pos and json pos obj
    arbitrary: v p and v p and v p and v p and v p
    rule: parse_value_parse_array_parse_array_loop_parse_object_parse_object_loop.induct)
  case (1 json pos0)
  show ?case by simp
next
  case (2 json pos)
  from "2.prems" show ?case
  proof (cases rule: parse_array_elim)
    case empty then show ?thesis by simp
  next
    case loop
    from "2.IH" [OF loop(1) _ refl loop(2,3)] show ?thesis by simp
  qed
next
  case (3 json pos arr)
  from "3.prems" show ?case
  proof (cases rule: parse_array_loop_elim)
    case (last x p1) then show ?thesis by simp
  next
    case (more x p1)
    from "3.IH"(2) [OF more(1) refl refl more(2,3,4)] show ?thesis .
  qed
next
  case (4 json pos)
  from "4.prems" show ?case
  proof (cases rule: parse_object_elim)
    case empty then show ?thesis by simp
  next
    case loop
    from "4.IH" [OF loop(1) _ refl loop(2,3)] show ?thesis by simp
  qed
next
  case (5 json pos0 obj)
  from "5.prems" show ?case
  proof (cases rule: parse_object_loop_elim)
    case (last k p1 key x p3) then show ?thesis by simp
  next
    case (more k p1 key x p3)
    from "5.IH"(2) [OF refl more(1,2) refl more(3) refl more(4,5) refl refl more(6,7,8)]
    show ?thesis .
  qed
qed

lemma number_from_parse_number:
  assumes "parse_value json pos = Inr (Number d, p)"
  shows "parse_number json (skip_whitespace json pos) = Inr (Number d, p)"
  using assms
proof (cases rule: parse_value_elim)
  case null then show ?thesis by (auto simp: parse_null_def split: if_splits)
next
  case bool then show ?thesis by (auto simp: parse_bool_def split: if_splits)
next
  case str then show ?thesis
    by (auto simp: parse_string_def split: if_splits sum.splits prod.splits)
next
  case (arr c) with parse_container_kinds(2) [OF arr(6)] show ?thesis by simp
next
  case (obj c) with parse_container_kinds(4) [OF obj(7)] show ?thesis by simp
next
  case num then show ?thesis .
qed

lemma spec_number_start:
  assumes "spec_number w"
  obtains c r where "w = c # r" "c = CHR ''-'' \<or> isdigit c"
proof -
  from assms obtain sign ip fp ep where w: "w = sign @ ip @ fp @ ep"
    and sign: "sign = [] \<or> sign = ''-''" and ip: "spec_integer_part ip"
    by (auto simp: spec_number_def)
  from part_heads(3) [OF ip] obtain c cs where "ip = c # cs" "isdigit c" by (cases ip) auto
  with w sign that show thesis by (cases "sign = []") auto
qed

lemma isspace_ends_number: "list_all isspace ws \<Longrightarrow> ends_number ws"
  by (cases ws) (auto simp: ends_number_def isspace_def isdigit_def byte_def)

lemma parse_number_text:
  assumes "list_all isspace ws1" "list_all isspace ws2" "spec_number w"
  shows "parse (ws1 @ w @ ws2) =
    (case stod w of
       None \<Rightarrow> Inl (JsonParseError ''Invalid number format'' (length ws1))
     | Some d \<Rightarrow> Inr (Number d))"
proof -
  let ?json = "ws1 @ w @ ws2"
  from assms(3) obtain c r where w: "w = c # r" and c: "c = CHR ''-'' \<or> isdigit c"
    by (rule spec_number_start)
  have led: "?json = ws1 @ c # (r @ ws2)" by (simp add: w)
  have d: "drop (length ws1) ?json = w @ ws2" by simp
  note pn = parse_number_complete [OF d assms(3) isspace_ends_number [OF assms(2)]]
  have "drop (length ws1 + length w) ?json = ws2 @ []" by simp
  from skip_whitespace_run [OF this assms(2)]
  have sk: "skip_whitespace ?json (length ws1 + length w) = length ?json" by simp
  show ?thesis
    by (subst parse_number_led [OF led assms(1) c]) (simp add: pn sk split: option.splits)
qed

lemma parse_number_result:
  assumes "parse json = Inr (Number d)"
  shows "\<exists>ws1 w ws2. json = ws1 @ w @ ws2 \<and> list_all isspace ws1 \<and> list_all isspace ws2
    \<and> spec_number w \<and> stod w = Some d"
proof -
  define p0 where "p0 = skip_whitespace json 0"
  from assms obtain p1 where pv: "parse_value json p0 = Inr (Number d, p1)"
    and fin: "\<not> skip_whitespace json p1 < length json"
    by (auto simp: parse_def Let_def p0_def split: sum.splits prod.splits if_splits)
  from number_from_parse_number [OF pv] have "parse_number json p0 = Inr (Number d, p1)"
    by (simp add: p0_def skip_whitespace_idem)
  from parse_number_sound [OF this] obtain w where w: "spec_number w" "stod w = Some d"
    "drop p0 json = w @ drop p1 json" "p1 = p0 + length w" by auto
  have p0: "p0 = length (takeWhile isspace json)" by (simp add: p0_def skip_whitespace_takeWhile)
  then have ws1: "take p0 json = takeWhile isspace json"
    using takeWhile_eq_take [of isspace json] by simp
  then have a1: "list_all isspace (take p0 json)" by (auto simp: list_all_iff dest: set_takeWhileD)
  from w(3) have "length (drop p0 json) = length w + length (drop p1 json)" by simp
  moreover have "p0 \<le> length json" using p0 takeWhile_length_le [of isspace json] by simp
  ultimately have le: "p1 \<le> length json" using w(4) by (cases "p1 \<le> length json") auto
  let ?ws2 = "drop p1 json"
  from fin have "length json \<le> p1 + length (takeWhile isspace ?ws2)"
    by (simp add: skip_whitespace_takeWhile)
  with le have "length ?ws2 \<le> length (takeWhile isspace ?ws2)" by simp
  with takeWhile_length_le [of isspace ?ws2] have "length (takeWhile isspace ?ws2) = length ?ws2"
    by simp
  then have "takeWhile isspace ?ws2 = ?ws2"
    by (metis takeWhile_eq_take take_all order_refl)
  then have a2: "list_all isspace ?ws2" by (simp add: takeWhile_eq_all_conv list_all_iff)
  have "json = take p0 json @ w @ ?ws2" using w(3) append_take_drop_id [of p0 json] by simp
  with a1 a2 w(1,2) show ?thesis by blast
qed

subsection \<open>Numbers out of the range of a double\<close>

text \<open>
  \<open>floor_log2\<close> is the binary logarithm rounded down, rounding to a double does not go
  below a power of two that the argument has reached, and so the conversion of a
  decimal of at least \<open>2\<^sup>1\<^sup>0\<^sup>2\<^sup>4\<close> overflows.  At the other end the conversion of a tiny
  decimal that is not a double underflows.
\<close>

lemma pow2_powi: "pow2 e = power_int 2 e"
proof (cases "0 \<le> e")
  case True
  then show ?thesis by (simp add: pow2_def power_int_def)
next
  case False
  then show ?thesis by (simp add: pow2_def power_int_def inverse_eq_divide power_one_over)
qed

lemma pow2_pos: "0 < pow2 e"
  by (simp add: pow2_powi)

lemma pow2_add: "pow2 (a + b) = pow2 a * pow2 b"
  by (simp add: pow2_powi power_int_add)

lemma pow2_mono: "a \<le> b \<Longrightarrow> pow2 a \<le> pow2 b"
  by (simp add: pow2_powi power_int_increasing)

lemma pow2_strict_mono: "a < b \<Longrightarrow> pow2 a < pow2 b"
  by (simp add: pow2_powi power_int_strict_increasing)

lemma pow2_le_imp_le: "pow2 a < pow2 b \<Longrightarrow> a < b"
  using pow2_mono [of b a] by (cases "a < b") auto

lemma pow2_int: "pow2 (int n) = 2 ^ n"
  by (simp add: pow2_def)

lemma digit_count_bounds:
  "0 < n \<Longrightarrow> 1 < b \<Longrightarrow> 0 < digit_count b n \<and> b ^ (digit_count b n - 1) \<le> n \<and> n < b ^ digit_count b n"
proof (induction b n rule: digit_count.induct)
  case (1 base n)
  have dc: "digit_count base n = Suc (digit_count base (n div base))"
    using 1(2,3) by (subst digit_count.simps) simp
  show ?case
  proof (cases "n div base = 0")
    case True
    then have "digit_count base (n div base) = 0" by (subst digit_count.simps) simp
    moreover from True 1(2,3) have "n < base"
      by (metis div_pos_pos_trivial linorder_not_less not_less_iff_gr_or_eq pos_imp_zdiv_pos_iff zero_less_one order_less_trans)
    ultimately show ?thesis using dc 1(2) by simp
  next
    case False
    with 1(2,3) have pos: "0 < n div base"
      by (metis less_le pos_imp_zdiv_nonneg_iff order_less_trans zero_less_one less_imp_le)
    from 1(1) [OF _ pos 1(3)] 1(2,3)
    have ih: "0 < digit_count base (n div base)"
      "base ^ (digit_count base (n div base) - 1) \<le> n div base"
      "n div base < base ^ digit_count base (n div base)"
      by auto
    define k where "k = digit_count base (n div base)"
    define m where "m = n div base"
    from ih have k: "0 < k" "base ^ (k - 1) \<le> m" "m < base ^ k" by (simp_all add: k_def m_def)
    have b0: "0 < base" using 1(3) by simp
    have nm: "n = base * m + n mod base" unfolding m_def by simp
    have n1: "base * m \<le> n"
      using nm pos_mod_sign [OF b0, of n] by linarith
    have n2: "n < base * (m + 1)"
      using nm pos_mod_bound [OF b0, of n] by (simp add: distrib_left)
    from k(1) have bk: "base ^ k = base * base ^ (k - 1)"
      by (cases k) simp_all
    from k(2) b0 have "base ^ k \<le> base * m" unfolding bk by simp
    with n1 have lo: "base ^ k \<le> n" by simp
    from k(3) have "m + 1 \<le> base ^ k" by simp
    with b0 have "base * (m + 1) \<le> base * base ^ k" by simp
    with n2 have hi: "n < base ^ Suc k" by simp
    from lo hi show ?thesis unfolding dc k_def [symmetric] by simp
  qed
qed

lemma floor_log2_bounds:
  assumes "0 < q"
  shows "pow2 (floor_log2 q) \<le> q \<and> q < pow2 (floor_log2 q + 1)"
proof -
  obtain a b where ab: "quotient_of q = (a, b)" by (cases "quotient_of q")
  then have b: "0 < b" by (rule quotient_of_denom_pos)
  from ab have q: "q = of_int a / of_int b" by (rule quotient_of_div)
  with assms b have a: "0 < a" by (simp add: zero_less_divide_iff)
  define la where "la = digit_count 2 a"
  define lb where "lb = digit_count 2 b"
  from digit_count_bounds [OF a, of 2] have A: "0 < la" "2 ^ (la - 1) \<le> a" "a < 2 ^ la"
    by (simp_all add: la_def)
  from digit_count_bounds [OF b, of 2] have B: "0 < lb" "2 ^ (lb - 1) \<le> b" "b < 2 ^ lb"
    by (simp_all add: lb_def)
  define e where "e = int la - int lb"
  have fl: "floor_log2 q = (if pow2 e \<le> q then e else e - 1)"
    by (simp add: floor_log2_def ab Let_def la_def lb_def e_def)
  have ra: "(2::rat) ^ (la - 1) \<le> of_int a" "of_int a < (2::rat) ^ la"
    using A(2,3) by (metis of_int_le_iff of_int_power of_int_numeral, metis of_int_less_iff of_int_power of_int_numeral)
  have rb: "(2::rat) ^ (lb - 1) \<le> of_int b" "of_int b < (2::rat) ^ lb"
    using B(2,3) by (metis of_int_le_iff of_int_power of_int_numeral, metis of_int_less_iff of_int_power of_int_numeral)
  have bpos: "(0::rat) < of_int b" using b by simp
  have lo: "pow2 (e - 1) \<le> q"
  proof -
    have "pow2 (e - 1) * of_int b \<le> pow2 (e - 1) * 2 ^ lb"
      using rb(2) pow2_pos [of "e - 1"] by simp
    also have "\<dots> = pow2 (e - 1) * pow2 (int lb)" by (simp add: pow2_int)
    also have "\<dots> = pow2 (int (la - 1))" using A(1)
      by (simp add: pow2_add [symmetric] e_def of_nat_diff)
    also have "\<dots> \<le> of_int a" using ra(1) by (simp add: pow2_int)
    finally show ?thesis using bpos by (simp add: q pos_le_divide_eq)
  qed
  have hi: "q < pow2 (e + 1)"
  proof -
    have "of_int a < (2::rat) ^ la" by (rule ra(2))
    also have "\<dots> = pow2 (e + 1) * pow2 (int (lb - 1))" using B(1)
      by (simp add: pow2_add [symmetric] e_def of_nat_diff pow2_int [symmetric])
    also have "\<dots> \<le> pow2 (e + 1) * of_int b"
      using rb(1) pow2_pos [of "e + 1"] by (simp add: pow2_int)
    finally show ?thesis using bpos by (simp add: q pos_divide_less_eq)
  qed
  show ?thesis
    using lo hi by (auto simp: fl)
qed

lemma floor_log2_ge:
  assumes "pow2 k \<le> q"
  shows "k \<le> floor_log2 q"
proof -
  from assms pow2_pos [of k] have "0 < q" by simp
  from floor_log2_bounds [OF this] assms have "pow2 k < pow2 (floor_log2 q + 1)" by simp
  from pow2_le_imp_le [OF this] show ?thesis by simp
qed

lemma floor_log2_less:
  assumes "0 < q" "q < pow2 k"
  shows "floor_log2 q < k"
proof -
  from floor_log2_bounds [OF assms(1)] assms(2) have "pow2 (floor_log2 q) < pow2 k" by simp
  then show ?thesis by (rule pow2_le_imp_le)
qed

lemma round_half_even_ge: "\<lfloor>r\<rfloor> \<le> round_half_even r"
  by (simp add: round_half_even_def Let_def)

lemma round_binary64_ge:
  assumes "pow2 k \<le> q" "- 1022 \<le> k"
  shows "pow2 k \<le> round_binary64 q"
proof -
  from assms pow2_pos [of k] have q: "0 < q" by simp
  define fl where "fl = floor_log2 q"
  from floor_log2_ge [OF assms(1)] have kfl: "k \<le> fl" by (simp add: fl_def)
  define e where "e = fl - 52"
  from kfl assms(2) have e: "max (fl - 52) (- 1074) = e" by (simp add: e_def)
  define m where "m = round_half_even (q / pow2 e)"
  have rb: "round_binary64 q = of_int m * pow2 e"
    using q by (simp add: round_binary64_def Let_def fl_def [symmetric] e m_def)
  from floor_log2_bounds [OF q] have "pow2 fl \<le> q" by (simp add: fl_def)
  then have "pow2 fl / pow2 e \<le> q / pow2 e"
    using pow2_pos [of e] by (simp add: divide_le_cancel)
  moreover have "pow2 fl = pow2 52 * pow2 e"
    by (simp add: pow2_add [symmetric] e_def)
  ultimately have "pow2 52 \<le> q / pow2 e" using pow2_pos [of e] by simp
  moreover define c :: int where "c = 2 ^ 52"
  moreover have c: "pow2 52 = of_int c" by (simp add: pow2_def c_def)
  ultimately have "of_int c \<le> q / pow2 e" by simp
  then have "c \<le> \<lfloor>q / pow2 e\<rfloor>" by (simp only: le_floor_iff)
  with round_half_even_ge [of "q / pow2 e"] have "c \<le> m" by (simp only: m_def)
  then have "(of_int c :: rat) \<le> of_int m" by (simp only: of_int_le_iff)
  then have "pow2 52 * pow2 e \<le> of_int m * pow2 e"
    using pow2_pos [of e] by (simp only: c mult_le_cancel_right_pos)
  then have "pow2 fl \<le> round_binary64 q"
    by (simp add: rb pow2_add [symmetric] e_def)
  with pow2_mono [OF kfl] show ?thesis by simp
qed

lemma stod_overflow:
  assumes "decimal_of str = Some q" "pow2 1024 \<le> q"
  shows "stod str = None"
proof -
  from round_binary64_ge [OF assms(2)] have d: "pow2 1024 \<le> round_binary64 q" by simp
  with pow2_pos [of 1024] have pos: "0 < round_binary64 q" by simp
  from floor_log2_ge [OF d] have "1024 \<le> floor_log2 \<bar>round_binary64 q\<bar>"
    using pos by simp
  moreover from assms(2) pow2_pos [of 1024] have "q \<noteq> 0" by auto
  ultimately show ?thesis
    using assms(1) by (simp add: stod_def Let_def)
qed

lemma spec_numberI:
  assumes "sign = [] \<or> sign = ''-''" "spec_integer_part ip" "fp = [] \<or> spec_fraction_part fp"
    "ep = [] \<or> spec_exponent_part ep"
  shows "spec_number (sign @ ip @ fp @ ep)"
  unfolding spec_number_def using assms by blast

lemma spec_exponent_partI:
  assumes "marker = CHR ''e'' \<or> marker = CHR ''E''" "sign = [] \<or> sign = ''+'' \<or> sign = ''-''"
    "ds \<noteq> []" "list_all isdigit ds"
  shows "spec_exponent_part (marker # sign @ ds)"
  unfolding spec_exponent_part_def using assms by blast

lemma decimal_of_1e400: "decimal_of ''1e400'' = Some (pow10 400)"
  by (simp add: decimal_of_def decimal_exponent_def isdigit_def byte_def digits_value_def
      digit_value_def Let_def)

lemma pow2_1024_le_pow10_400: "pow2 1024 \<le> pow10 400"
proof -
  have "(2::rat) ^ 1024 \<le> 2 ^ (3 * 400)" by (rule power_increasing) simp_all
  also have "\<dots> = (2 ^ 3) ^ 400" by (rule power_mult)
  also have "\<dots> \<le> (10::rat) ^ 400" by (rule power_mono) simp_all
  finally show ?thesis by (simp add: pow2_def pow10_def)
qed

lemma stod_1e400: "stod ''1e400'' = None"
  by (rule stod_overflow [OF decimal_of_1e400 pow2_1024_le_pow10_400])

text \<open>
  Underflow: the decimal \<^verbatim>\<open>2.2250738585072012e-308\<close> lies between the largest
  subnormal double and the least normal double \<open>2\<^sup>-\<^sup>1\<^sup>0\<^sup>2\<^sup>2\<close>, which is the double nearest
  to it.  It is tiny and the conversion is inexact, so the conversion fails, and
  \<open>parse\<close> with it.
\<close>

lemma round_half_even_floor:
  assumes "of_int k \<le> r" "r < of_int k + 1 / 2"
  shows "round_half_even r = k"
proof -
  from assms have "\<lfloor>r\<rfloor> = k" by (intro floor_unique) simp_all
  with assms(2) show ?thesis by (simp add: round_half_even_def Let_def)
qed

lemma floor_log2_eq:
  assumes "pow2 k \<le> q" "q < pow2 (k + 1)"
  shows "floor_log2 q = k"
proof -
  from assms(1) pow2_pos [of k] have "0 < q" by simp
  from floor_log2_less [OF this assms(2)] floor_log2_ge [OF assms(1)] show ?thesis by simp
qed

lemma stod_below_least_normal: "stod ''2.2250738585072012e-308'' = None"
proof -
  define q :: rat where "q = 22250738585072012 * pow10 (- 324)"
  have dec: "decimal_of ''2.2250738585072012e-308'' = Some q"
    by (simp add: decimal_of_def decimal_exponent_def isdigit_def byte_def digits_value_def
        digit_value_def Let_def q_def)
  have qv: "q = 22250738585072012 / 10 ^ 324" by (simp add: q_def pow10_def)
  have pos: "0 < q" by (simp add: qv)
  have p: "pow2 (- 1075) = 1 / 2 ^ 1075" "pow2 (- 1074) = 1 / 2 ^ 1074"
    "pow2 (- 1023) = 1 / 2 ^ 1023" "pow2 (- 1022) = 1 / 2 ^ 1022"
    by (simp_all add: pow2_def)
  have "pow2 (- 1023) \<le> q" by (simp add: qv p)
  moreover have "q < pow2 (- 1023 + 1)" by (simp add: qv p)
  ultimately have fl: "floor_log2 q = - 1023" by (rule floor_log2_eq)
  define r where "r = q / pow2 (- 1075)"
  have "of_int (2 ^ 53 - 1) \<le> r" by (simp add: r_def qv p)
  moreover have "r < of_int (2 ^ 53 - 1) + 1 / 2" by (simp add: r_def qv p)
  ultimately have m: "round_half_even r = 2 ^ 53 - 1" by (rule round_half_even_floor)
  have "round_precision53 q = of_int (round_half_even r) * pow2 (- 1075)"
    using pos by (simp add: round_precision53_def Let_def fl r_def)
  then have rp: "round_precision53 q = of_int (2 ^ 53 - 1) * pow2 (- 1075)"
    by (simp only: m)
  have "round_precision53 q < pow2 (- 1022)" by (simp add: rp p)
  moreover have rpos: "0 < round_precision53 q" by (simp add: rp p)
  ultimately have "floor_log2 (round_precision53 q) < - 1022" by (intro floor_log2_less)
  with rpos pos have t: "tiny q" by (simp add: tiny_def)
  define j where "j = round_half_even (q / pow2 (- 1074))"
  have rb: "round_binary64 q = of_int j * pow2 (- 1074)"
    using pos by (simp add: round_binary64_def Let_def fl j_def)
  have ne: "round_binary64 q \<noteq> q"
  proof
    assume "round_binary64 q = q"
    then have "of_int j * pow2 (- 1074) = q" by (simp only: rb)
    then have e: "of_int j = q * 2 ^ 1074" by (simp add: p field_simps)
    have "of_int (2 ^ 52 - 1) < q * 2 ^ 1074" by (simp add: qv)
    then have "(of_int (2 ^ 52 - 1) :: rat) < of_int j" by (simp only: e)
    then have 1: "2 ^ 52 - 1 < j" by (simp only: of_int_less_iff)
    have "q * 2 ^ 1074 < of_int (2 ^ 52)" by (simp add: qv)
    then have "(of_int j :: rat) < of_int (2 ^ 52)" by (simp only: e)
    then have "j < 2 ^ 52" by (simp only: of_int_less_iff)
    with 1 show False by simp
  qed
  from dec pos t ne show ?thesis by (simp add: stod_def Let_def)
qed

lemma parse_below_least_normal:
  "spec_number ''2.2250738585072012e-308''
   \<and> parse ''2.2250738585072012e-308'' = Inl (JsonParseError ''Invalid number format'' 0)"
proof -
  have dg: "list_all isdigit ''2250738585072012''" "list_all isdigit ''308''"
    by (simp_all add: isdigit_def byte_def)
  have ip: "spec_integer_part ''2''"
    by (simp add: spec_integer_part_def isdigit_def byte_def)
  have fp: "spec_fraction_part ''.2250738585072012''"
    using dg(1) by (simp add: spec_fraction_part_def)
  have ep: "spec_exponent_part ''e-308''"
    using spec_exponent_partI [of "CHR ''e''" "''-''" "''308''"] dg(2) by simp
  have w: "spec_number ''2.2250738585072012e-308''"
    using spec_numberI [of "[]" "''2''" "''.2250738585072012''" "''e-308''"] ip fp ep by simp
  from parse_number_text [of "[]" "[]" "''2.2250738585072012e-308''"] w stod_below_least_normal
  show ?thesis by simp
qed

subsection \<open>What \<open>parse\<close> accepts as a number\<close>

text \<open>
  Claim C2, as stated, fails: \<open>parse\<close> does not accept every text of the number
  grammar.  \<^verbatim>\<open>1e400\<close> is a number of the grammar; its value is above the largest
  double, \<^verbatim>\<open>std::stod\<close> throws \<^verbatim>\<open>std::out_of_range\<close>, and \<open>parse_number\<close> turns
  that into the error "Invalid number format" at the offset where the number starts.
\<close>

theorem number_out_of_range_rejected:
  "spec_number ''1e400''
   \<and> parse ''1e400'' = Inl (JsonParseError ''Invalid number format'' 0)"
proof -
  have dg: "isdigit (CHR ''0'')" "isdigit (CHR ''1'')" "isdigit (CHR ''4'')"
    by (simp_all add: isdigit_def byte_def)
  have ip: "spec_integer_part ''1''"
    by (simp add: spec_integer_part_def dg)
  have ep: "spec_exponent_part ''e400''"
    using spec_exponent_partI [of "CHR ''e''" "[]" "''400''"] by (simp add: dg)
  have w: "spec_number ''1e400''"
    using spec_numberI [of "[]" "''1''" "[]" "''e400''"] by (simp add: ip ep)
  from parse_number_text [of "[]" "[]" "''1e400''"] w stod_1e400
  show ?thesis by simp
qed

text \<open>
  Claim C2, amended.  \<open>parse\<close> returns a number exactly on the inputs that are a number
  of the grammar between optional white space and whose text \<^verbatim>\<open>std::stod\<close> converts,
  and the number is the result of that conversion; on an input of the grammar the only
  failure is that of the conversion itself ("Invalid number format", at the offset
  where the number starts): the value overflows (\<open>stod_overflow\<close>), or it is tiny and
  not a double (\<open>parse_below_least_normal\<close>).  A decimal point
  that is not followed by a digit fails with "Invalid number: expected digit after
  decimal point", and an exponent marker, with its optional sign, that is not followed
  by a digit fails with "Invalid number: expected digit in exponent"; each error
  carries the byte offset of the position where the digit was expected.
\<close>

theorem number_grammar:
  "(parse json = Inr (Number d) \<longleftrightarrow>
      (\<exists>ws1 w ws2. json = ws1 @ w @ ws2 \<and> list_all isspace ws1 \<and> list_all isspace ws2
         \<and> spec_number w \<and> stod w = Some d))
   \<and> (list_all isspace pre \<and> list_all isspace post \<and> spec_number lexeme \<longrightarrow>
        parse (pre @ lexeme @ post) =
          (case stod lexeme of
             None \<Rightarrow> Inl (JsonParseError ''Invalid number format'' (length pre))
           | Some d \<Rightarrow> Inr (Number d)))
   \<and> (list_all isspace ws \<and> (sign = [] \<or> sign = ''-'') \<and> spec_integer_part ip
        \<and> (r = [] \<or> \<not> isdigit (hd r)) \<longrightarrow>
        parse (ws @ sign @ ip @ CHR ''.'' # r) =
          Inl (JsonParseError ''Invalid number: expected digit after decimal point''
                (length ws + length sign + length ip + 1)))
   \<and> (list_all isspace ws \<and> (sign = [] \<or> sign = ''-'') \<and> spec_integer_part ip
        \<and> (fp = [] \<or> spec_fraction_part fp) \<and> (marker = CHR ''e'' \<or> marker = CHR ''E'')
        \<and> (esign = [] \<or> esign = ''+'' \<or> esign = ''-'') \<and> (t = [] \<or> \<not> isdigit (hd t))
        \<and> (esign = [] \<longrightarrow> t = [] \<or> (hd t \<noteq> CHR ''+'' \<and> hd t \<noteq> CHR ''-'')) \<longrightarrow>
        parse (ws @ sign @ ip @ fp @ marker # esign @ t) =
          Inl (JsonParseError ''Invalid number: expected digit in exponent''
                (length ws + length sign + length ip + length fp + 1 + length esign)))"
proof (intro conjI impI iffI)
  assume "parse json = Inr (Number d)"
  then show "\<exists>ws1 w ws2. json = ws1 @ w @ ws2 \<and> list_all isspace ws1 \<and> list_all isspace ws2
         \<and> spec_number w \<and> stod w = Some d"
    by (rule parse_number_result)
next
  assume "\<exists>ws1 w ws2. json = ws1 @ w @ ws2 \<and> list_all isspace ws1 \<and> list_all isspace ws2
         \<and> spec_number w \<and> stod w = Some d"
  then show "parse json = Inr (Number d)"
    by (auto simp: parse_number_text)
next
  assume "list_all isspace pre \<and> list_all isspace post \<and> spec_number lexeme"
  then show "parse (pre @ lexeme @ post) =
          (case stod lexeme of
             None \<Rightarrow> Inl (JsonParseError ''Invalid number format'' (length pre))
           | Some d \<Rightarrow> Inr (Number d))"
    by (simp add: parse_number_text)
next
  assume a: "list_all isspace ws \<and> (sign = [] \<or> sign = ''-'') \<and> spec_integer_part ip
        \<and> (r = [] \<or> \<not> isdigit (hd r))"
  let ?json = "ws @ sign @ ip @ CHR ''.'' # r"
  from a part_heads(3) [of ip] obtain c cs where c: "ip = c # cs" "isdigit c"
    by (cases ip) auto
  obtain c' r' where led: "?json = ws @ c' # r'" and c': "c' = CHR ''-'' \<or> isdigit c'"
    using a c by (cases "sign = []") auto
  have d: "drop (length ws) ?json = sign @ ip @ CHR ''.'' # r" by simp
  from a have pn: "parse_number ?json (length ws) =
      Inl (JsonParseError ''Invalid number: expected digit after decimal point''
            (length ws + length sign + length ip + 1))"
    by (intro parse_number_fraction_error [OF d]) simp_all
  show "parse ?json = Inl (JsonParseError ''Invalid number: expected digit after decimal point''
                (length ws + length sign + length ip + 1))"
    using a by (subst parse_number_led [OF led _ c']) (simp_all add: pn)
next
  assume a: "list_all isspace ws \<and> (sign = [] \<or> sign = ''-'') \<and> spec_integer_part ip
        \<and> (fp = [] \<or> spec_fraction_part fp) \<and> (marker = CHR ''e'' \<or> marker = CHR ''E'')
        \<and> (esign = [] \<or> esign = ''+'' \<or> esign = ''-'') \<and> (t = [] \<or> \<not> isdigit (hd t))
        \<and> (esign = [] \<longrightarrow> t = [] \<or> (hd t \<noteq> CHR ''+'' \<and> hd t \<noteq> CHR ''-''))"
  let ?json = "ws @ sign @ ip @ fp @ marker # esign @ t"
  from a part_heads(3) [of ip] obtain c cs where c: "ip = c # cs" "isdigit c"
    by (cases ip) auto
  obtain c' r' where led: "?json = ws @ c' # r'" and c': "c' = CHR ''-'' \<or> isdigit c'"
    using a c by (cases "sign = []") auto
  have d: "drop (length ws) ?json = sign @ ip @ fp @ marker # esign @ t" by simp
  from a have pn: "parse_number ?json (length ws) =
      Inl (JsonParseError ''Invalid number: expected digit in exponent''
                (length ws + length sign + length ip + length fp + 1 + length esign))"
    by (intro parse_number_exponent_error [OF d]) simp_all
  show "parse ?json = Inl (JsonParseError ''Invalid number: expected digit in exponent''
                (length ws + length sign + length ip + length fp + 1 + length esign))"
    using a by (subst parse_number_led [OF led _ c']) (simp_all add: pn)
qed

text \<open>The number \<^verbatim>\<open>-12.50e+3\<close> between spaces, and the malformed \<^verbatim>\<open>1.\<close> and
  \<^verbatim>\<open>-0.5E-x\<close>.\<close>

theorem number_grammar_witness:
  "parse '' -12.50e+3 '' = Inr (Number (- 12500))
   \<and> spec_number ''-12.50e+3''
   \<and> parse ''1.'' = Inl (JsonParseError ''Invalid number: expected digit after decimal point'' 2)
   \<and> parse '' -0.5E-x'' = Inl (JsonParseError ''Invalid number: expected digit in exponent'' 7)"
proof -
  have dg: "isdigit (CHR ''0'')" "isdigit (CHR ''1'')" "isdigit (CHR ''2'')" "isdigit (CHR ''3'')"
    "isdigit (CHR ''5'')" "\<not> isdigit (CHR ''x'')" "isspace (CHR '' '')"
    by (simp_all add: isdigit_def isspace_def byte_def)
  have ip: "spec_integer_part ''12''" "spec_integer_part ''1''" "spec_integer_part ''0''"
    by (simp_all add: spec_integer_part_def dg)
  have fp: "spec_fraction_part ''.50''" "spec_fraction_part ''.5''"
    by (simp_all add: spec_fraction_part_def dg)
  have ep: "spec_exponent_part ''e+3''"
    using spec_exponent_partI [of "CHR ''e''" "''+''" "''3''"] by (simp add: dg)
  have w: "spec_number ''-12.50e+3''"
    using spec_numberI [of "''-''" "''12''" "''.50''" "''e+3''"] by (simp add: ip fp ep)
  have st: "stod ''-12.50e+3'' = Some (- 12500)"
    by code_simp
  from number_grammar [where pre = "'' ''" and lexeme = "''-12.50e+3''" and post = "'' ''"
      and ws = "[]" and sign = "[]" and ip = "''1''" and r = "[]" and fp = "[]"
      and marker = "CHR ''e''" and esign = "[]" and t = "[]"]
    number_grammar [where pre = "[]" and post = "[]" and lexeme = "[]"
      and ws = "'' ''" and sign = "''-''" and ip = "''0''" and r = "[]" and fp = "''.5''"
      and marker = "CHR ''E''" and esign = "''-''" and t = "''x''"]
    w st ip fp
  show ?thesis by (simp add: dg)
qed

section \<open>Number formatting\<close>

subsection \<open>Numbers printed as integers\<close>

text \<open>
  When \<open>stringify\<close> prints a number as an integer, the digits are a number of the
  grammar and \<^verbatim>\<open>std::stod\<close> converts them back to the same double: such a number
  is read back unchanged.
\<close>

lemma digit_value_char_of: "0 \<le> m \<Longrightarrow> m < 10 \<Longrightarrow> digit_value (char_of (48 + m :: int)) = m"
  by (simp add: digit_value_def isdigit_def byte_def)

lemma digits_value_put_digits: "digits_value 10 (put_digits k n) = n mod 10 ^ k"
proof (induction k arbitrary: n)
  case 0
  show ?case by (simp add: digits_value_def)
next
  case (Suc k)
  have "n mod (10 * 10 ^ k) = 10 * (n div 10 mod 10 ^ k) + n mod 10"
    by (rule zmod_zmult2_eq) simp
  then show ?case
    by (simp add: digits_value_snoc Suc.IH digit_value_char_of)
qed

lemma length_put_digits: "length (put_digits k n) = k"
  by (induction k arbitrary: n) simp_all

lemma hd_put_digits:
  "0 < k \<Longrightarrow> hd (put_digits k n) = char_of (48 + n div 10 ^ (k - 1) mod 10)"
proof (induction k arbitrary: n)
  case 0
  then show ?case by simp
next
  case (Suc k)
  show ?case
  proof (cases "k = 0")
    case True
    then show ?thesis by simp
  next
    case False
    then have k: "0 < k" by simp
    have ne: "put_digits k (n div 10) \<noteq> []"
      using length_put_digits [of k "n div 10"] k by auto
    have "n div 10 div 10 ^ (k - 1) = n div (10 * 10 ^ (k - 1))"
      by (rule zdiv_zmult2_eq [symmetric]) simp
    also have "(10::int) * 10 ^ (k - 1) = 10 ^ k" using k by (cases k) simp_all
    finally have d: "n div 10 div 10 ^ (k - 1) = n div 10 ^ k" .
    have "hd (put_digits (Suc k) n) = hd (put_digits k (n div 10))"
      using ne by simp
    also have "\<dots> = char_of (48 + n div 10 div 10 ^ (k - 1) mod 10)"
      by (rule Suc.IH [OF k])
    finally show ?thesis by (simp only: d diff_Suc_1)
  qed
qed

lemma put_unsigned_value: "0 \<le> n \<Longrightarrow> digits_value 10 (put_unsigned n) = n"
proof (cases "n = 0")
  case True
  then show ?thesis
    by (simp add: put_unsigned_def digits_value_def digit_value_def isdigit_def byte_def)
next
  case False
  assume "0 \<le> n"
  with False have n: "0 < n" by simp
  from digit_count_bounds [OF n, of 10] have "n < 10 ^ digit_count 10 n" by simp
  with n show ?thesis
    by (simp add: put_unsigned_def digits_value_put_digits)
qed

lemma put_unsigned_integer_part: "0 \<le> n \<Longrightarrow> spec_integer_part (put_unsigned n)"
proof (cases "n = 0")
  case True
  then show ?thesis by (simp add: put_unsigned_def spec_integer_part_def)
next
  case False
  assume "0 \<le> n"
  with False have n: "0 < n" by simp
  define k where "k = digit_count 10 n"
  from digit_count_bounds [OF n, of 10]
  have k: "0 < k" "10 ^ (k - 1) \<le> n" "n < 10 ^ k" by (simp_all add: k_def)
  define p :: int where "p = 10 ^ (k - 1)"
  have p: "0 < p" by (simp add: p_def)
  from k(1) have "(10::int) ^ k = 10 * p" by (cases k) (simp_all add: p_def)
  with k(3) have "n < 10 * p" by simp
  then have "n < p * 10" by (simp add: mult.commute)
  from k(2) p have "0 < n div p"
    by (simp add: p_def pos_imp_zdiv_pos_iff)
  then have lo: "1 \<le> n div p" by simp
  have "p * (n div p) \<le> n"
    using mult_div_mod_eq [of p n] pos_mod_sign [OF p, of n] by linarith
  with \<open>n < p * 10\<close> have "p * (n div p) < p * 10" by simp
  with p have hi: "n div p < 10" by (simp only: mult_less_cancel_left_pos)
  from lo hi have m: "n div p mod 10 = n div p" by simp
  from hd_put_digits [OF k(1), of n]
  have "hd (put_digits k n) = char_of (48 + n div p mod 10)" by (simp only: p_def)
  then have hd: "hd (put_digits k n) = char_of (48 + n div p)" by (simp only: m)
  have b: "byte (char_of (48 + n div p)) = 48 + n div p"
    using lo hi by (simp add: byte_def)
  have nz: "char_of (48 + n div p) \<noteq> CHR ''0''"
  proof
    assume "char_of (48 + n div p) = CHR ''0''"
    then have "byte (char_of (48 + n div p)) = byte (CHR ''0'')" by (rule arg_cong)
    with b have "48 + n div p = 48" by (simp add: byte_def)
    with lo show False by simp
  qed
  have ne: "put_digits k n \<noteq> []"
    using length_put_digits [of k n] k(1) by auto
  have "list_all isdigit (put_digits k n)"
    by (auto simp: list_all_iff dest: put_digits_isdigit)
  with ne hd nz False show ?thesis
    by (simp add: put_unsigned_def k_def [symmetric] spec_integer_part_def)
qed

lemma put_unsigned_nonempty: "0 \<le> n \<Longrightarrow> put_unsigned n \<noteq> []"
  using part_heads(3) [OF put_unsigned_integer_part] by simp

lemma takeWhile_all: "list_all P xs \<Longrightarrow> takeWhile P xs = xs"
  by (simp add: list_all_iff)

lemma dropWhile_all: "list_all P xs \<Longrightarrow> dropWhile P xs = []"
  by (simp add: list_all_iff)

lemma decimal_of_put_unsigned:
  assumes "0 \<le> n"
  shows "decimal_of (put_unsigned n) = Some (of_int n)"
proof -
  have all: "list_all isdigit (put_unsigned n)"
    by (auto simp: list_all_iff dest: put_unsigned_isdigit)
  have "isdigit (hd (put_unsigned n))"
    using put_unsigned_nonempty [OF assms] put_unsigned_isdigit [of "hd (put_unsigned n)" n] by simp
  then have nm: "hd (put_unsigned n) \<noteq> CHR ''-''"
    by (auto simp: isdigit_def byte_def)
  show ?thesis
    using put_unsigned_nonempty [OF assms] nm
    by (simp add: decimal_of_def Let_def takeWhile_all [OF all] dropWhile_all [OF all]
        decimal_exponent_def pow10_def put_unsigned_value [OF assms])
qed

lemma decimal_of_put_long_long: "decimal_of (put_long_long n) = Some (of_int n)"
proof (cases "n < 0")
  case True
  then have m: "0 \<le> - n" by simp
  have all: "list_all isdigit (put_unsigned (- n))"
    by (auto simp: list_all_iff dest: put_unsigned_isdigit)
  show ?thesis
    using True put_unsigned_nonempty [OF m]
    by (simp add: put_long_long_def decimal_of_def Let_def takeWhile_all [OF all]
        dropWhile_all [OF all] decimal_exponent_def pow10_def put_unsigned_value [OF m])
next
  case False
  then show ?thesis
    by (simp add: put_long_long_def decimal_of_put_unsigned)
qed

lemma spec_number_put_long_long: "spec_number (put_long_long n)"
proof (cases "n < 0")
  case True
  then have "spec_integer_part (put_unsigned (- n))" by (intro put_unsigned_integer_part) simp
  then have "spec_number (''-'' @ put_unsigned (- n) @ [] @ [])"
    unfolding spec_number_def by blast
  with True show ?thesis by (simp add: put_long_long_def)
next
  case False
  then have "spec_integer_part (put_unsigned n)" by (intro put_unsigned_integer_part) simp
  then have "spec_number ([] @ put_unsigned n @ [] @ [])"
    unfolding spec_number_def by blast
  with False show ?thesis by (simp add: put_long_long_def)
qed

lemma round_half_even_le: "round_half_even r \<le> \<lfloor>r\<rfloor> + 1"
  by (simp add: round_half_even_def Let_def)

lemma round_binary64_le:
  assumes "0 < q" "- 1022 \<le> floor_log2 q"
  shows "round_binary64 q \<le> pow2 (floor_log2 q + 1)"
proof -
  define fl where "fl = floor_log2 q"
  define e where "e = fl - 52"
  from assms(2) have e: "max (fl - 52) (- 1074) = e" by (simp add: e_def fl_def)
  define m where "m = round_half_even (q / pow2 e)"
  have rb: "round_binary64 q = of_int m * pow2 e"
    using assms(1) by (simp add: round_binary64_def Let_def fl_def [symmetric] e m_def)
  define c :: int where "c = 2 ^ 53"
  have c: "pow2 53 = of_int c" by (simp add: pow2_def c_def)
  from floor_log2_bounds [OF assms(1)] have "q < pow2 (fl + 1)" by (simp add: fl_def)
  then have "q / pow2 e < pow2 (fl + 1) / pow2 e"
    using pow2_pos [of e] by (simp add: divide_strict_right_mono)
  moreover have "fl + 1 = 53 + e" by (simp add: e_def)
  then have split: "pow2 (fl + 1) = pow2 53 * pow2 e" by (simp only: pow2_add)
  moreover note split
  ultimately have "q / pow2 e < of_int c" using pow2_pos [of e] by (simp add: c)
  then have "\<lfloor>q / pow2 e\<rfloor> < c" by (simp only: floor_less_iff)
  with round_half_even_le [of "q / pow2 e"] have "m \<le> c" by (simp add: m_def)
  then have "(of_int m :: rat) \<le> of_int c" by (simp only: of_int_le_iff)
  then have "of_int m * pow2 e \<le> pow2 53 * pow2 e"
    using pow2_pos [of e] by (simp only: c mult_le_cancel_right_pos)
  then have "round_binary64 q \<le> pow2 (fl + 1)" by (simp only: rb split)
  then show ?thesis by (simp only: fl_def)
qed

lemma round_binary64_minus: "round_binary64 (- q) = - round_binary64 q"
  by (simp add: round_binary64_def Let_def)

lemma round_precision53_normal:
  assumes "- 1022 \<le> floor_log2 \<bar>q\<bar>"
  shows "round_precision53 q = round_binary64 q"
proof -
  from assms have "max (floor_log2 \<bar>q\<bar> - 52) (- 1074) = floor_log2 \<bar>q\<bar> - 52" by simp
  then show ?thesis
    by (simp add: round_precision53_def round_binary64_def Let_def)
qed

lemma round_precision53_minus: "round_precision53 (- q) = - round_precision53 q"
  by (simp add: round_precision53_def Let_def)

lemma tiny_minus: "tiny (- q) = tiny q"
  by (simp add: tiny_def round_precision53_minus)

lemma stod_positive_integer:
  assumes "decimal_of str = Some q" "1 \<le> q" "q < pow2 1000"
  shows "stod str = Some (round_binary64 q)"
proof -
  from assms(2) have q: "0 < q" by simp
  from assms(2) have p0: "pow2 0 \<le> q" by (simp add: pow2_def)
  from round_binary64_ge [OF p0] have d1: "pow2 0 \<le> round_binary64 q" by simp
  then have pos: "0 < round_binary64 q" using pow2_pos [of 0] by simp
  from floor_log2_ge [OF d1] have lo: "0 \<le> floor_log2 (round_binary64 q)" .
  from floor_log2_ge [OF p0] have fl0: "0 \<le> floor_log2 q" .
  from floor_log2_less [OF q assms(3)] have fl: "floor_log2 q < 1000" .
  from round_binary64_le [OF q] fl0 have "round_binary64 q \<le> pow2 (floor_log2 q + 1)" by simp
  also have "\<dots> < pow2 1024" using fl by (intro pow2_strict_mono) simp
  finally have hi: "floor_log2 (round_binary64 q) < 1024" by (rule floor_log2_less [OF pos])
  from fl0 q have "round_precision53 q = round_binary64 q"
    by (intro round_precision53_normal) simp
  with lo pos have "\<not> tiny q" by (simp add: tiny_def)
  with hi pos q assms(1) show ?thesis
    by (simp add: stod_def Let_def)
qed

lemma stod_minus:
  assumes "decimal_of str = Some q" "decimal_of str' = Some (- q)" "stod str = Some d"
  shows "stod str' = Some (- d)"
  using assms by (auto simp: stod_def Let_def round_binary64_minus tiny_minus split: if_splits)

lemma stod_put_long_long:
  assumes "\<bar>n\<bar> \<le> 2 ^ 63"
  shows "stod (put_long_long n) = Some (long_long_to_double n)"
proof -
  have b: "(2 ^ 63 :: rat) < pow2 1000"
  proof -
    have "(2 ^ 63 :: rat) = pow2 63" by (simp add: pow2_def)
    also have "\<dots> < pow2 1000" by (rule pow2_strict_mono) simp
    finally show ?thesis .
  qed
  from assms have r: "\<bar>of_int n :: rat\<bar> \<le> 2 ^ 63"
    by (metis of_int_abs of_int_le_iff of_int_numeral of_int_power)
  consider "n = 0" | "0 < n" | "n < 0" by linarith
  then show ?thesis
  proof cases
    case 1
    have "decimal_of (put_long_long 0) = Some 0" using decimal_of_put_long_long [of 0] by simp
    then show ?thesis using 1
      by (simp add: stod_def long_long_to_double_def round_binary64_def)
  next
    case 2
    then have "(1::rat) \<le> of_int n" by simp
    moreover from r 2 b have "(of_int n :: rat) < pow2 1000" by simp
    ultimately show ?thesis
      using stod_positive_integer [OF decimal_of_put_long_long [of n]]
      by (simp add: long_long_to_double_def)
  next
    case 3
    then have "(1::rat) \<le> of_int (- n)" by simp
    moreover from r 3 b have "(of_int (- n) :: rat) < pow2 1000" by simp
    ultimately have "stod (put_long_long (- n)) = Some (round_binary64 (of_int (- n)))"
      using stod_positive_integer [OF decimal_of_put_long_long [of "- n"]] by simp
    from stod_minus [OF decimal_of_put_long_long [of "- n"] _ this, of "put_long_long n"]
      decimal_of_put_long_long [of n]
    show ?thesis
      by (simp add: long_long_to_double_def round_binary64_minus)
  qed
qed

lemma integer_number_roundtrips:
  assumes "double_to_long_long d = Some n" "d = long_long_to_double n"
  shows "number_roundtrips d"
proof -
  from assms(1) have "- (2 ^ 63) \<le> n \<and> n < 2 ^ 63"
    by (auto simp: double_to_long_long_def Let_def split: if_splits)
  then have "\<bar>n\<bar> \<le> 2 ^ 63" by arith
  from stod_put_long_long [OF this] assms(2) have "stod (put_long_long n) = Some d" by simp
  moreover from assms have "put_number d = Inr (put_long_long n)"
    by (simp add: put_number_def)
  ultimately show ?thesis
    by (simp add: number_roundtrips_def spec_number_put_long_long)
qed

subsection \<open>Integral, fractional and large numbers\<close>










section \<open>Round trip\<close>

subsection \<open>Reading back a string\<close>

lemma current_append: "drop pos json = c # r \<Longrightarrow> current json pos = Inr c"
proof -
  assume a: "drop pos json = c # r"
  then have "pos < length json" by (cases "pos < length json") auto
  moreover from a have "json ! pos = c" by (metis nth_via_drop)
  ultimately show ?thesis by (simp add: current_def)
qed

lemma drop_append_drop: "drop pos json = xs @ r \<Longrightarrow> drop (pos + length xs) json = r"
proof -
  assume a: "drop pos json = xs @ r"
  have "drop (pos + length xs) json = drop (length xs) (drop pos json)"
    by (simp add: add.commute)
  with a show ?thesis by simp
qed

lemma drop_append_length: "drop pos json = xs @ r \<Longrightarrow> xs \<noteq> [] \<Longrightarrow> pos + length xs \<le> length json"
proof -
  assume a: "drop pos json = xs @ r" and ne: "xs \<noteq> []"
  from a have "length (drop pos json) = length xs + length r" by simp
  with ne show ?thesis by (cases "pos \<le> length json") auto
qed

lemma skip_whitespace_none: "drop pos json = c # r \<Longrightarrow> \<not> isspace c \<Longrightarrow> skip_whitespace json pos = pos"
  using skip_whitespace_run [of pos json "[]" "c # r"] by simp

lemma parse_string_loop_plain:
  assumes "drop pos json = c # r" "c \<noteq> quote" "c \<noteq> backslash"
  shows "parse_string_loop json pos acc = parse_string_loop json (pos + 1) (acc @ [c])"
proof -
  from assms(1) have "pos < length json" by (cases "pos < length json") auto
  with peek_append [OF assms(1)] advance_drop [OF assms(1)] assms(2,3) show ?thesis
    by (subst parse_string_loop.simps) simp
qed

lemma parse_string_loop_stop:
  assumes "drop pos json = quote # r"
  shows "parse_string_loop json pos acc = Inr (acc, pos)"
  using peek_append [OF assms] by (subst parse_string_loop.simps) simp

lemma parse_escape_simple:
  assumes "drop p json = e # r"
  shows "e = quote \<Longrightarrow> parse_escape json p = Inr ([quote], p + 1)"
    "e = backslash \<Longrightarrow> parse_escape json p = Inr ([backslash], p + 1)"
    "e = CHR ''b'' \<Longrightarrow> parse_escape json p = Inr ([CHR 0x08], p + 1)"
    "e = CHR ''f'' \<Longrightarrow> parse_escape json p = Inr ([CHR 0x0C], p + 1)"
    "e = CHR ''n'' \<Longrightarrow> parse_escape json p = Inr ([CHR 0x0A], p + 1)"
    "e = CHR ''r'' \<Longrightarrow> parse_escape json p = Inr ([CHR 0x0D], p + 1)"
    "e = CHR ''t'' \<Longrightarrow> parse_escape json p = Inr ([CHR 0x09], p + 1)"
proof -
  from assms have "p < length json" by (cases "p < length json") auto
  then have a: "\<not> length json \<le> p" by simp
  note pk = peek_append [OF assms] and adv = advance_drop [OF assms, THEN conjunct1]
  show "e = quote \<Longrightarrow> parse_escape json p = Inr ([quote], p + 1)"
    "e = backslash \<Longrightarrow> parse_escape json p = Inr ([backslash], p + 1)"
    "e = CHR ''b'' \<Longrightarrow> parse_escape json p = Inr ([CHR 0x08], p + 1)"
    "e = CHR ''f'' \<Longrightarrow> parse_escape json p = Inr ([CHR 0x0C], p + 1)"
    "e = CHR ''n'' \<Longrightarrow> parse_escape json p = Inr ([CHR 0x0A], p + 1)"
    "e = CHR ''r'' \<Longrightarrow> parse_escape json p = Inr ([CHR 0x0D], p + 1)"
    "e = CHR ''t'' \<Longrightarrow> parse_escape json p = Inr ([CHR 0x09], p + 1)"
    using a pk adv by (simp_all add: parse_escape_def Let_def)
qed

lemma hex_digit_value: "0 \<le> d \<Longrightarrow> d < 16 \<Longrightarrow> isxdigit (hex_digit d) \<and> digit_value (hex_digit d) = d"
  by (auto simp: hex_digit_def isxdigit_def isdigit_def digit_value_def byte_def)

lemma stoi16_put_hex4:
  assumes "0 \<le> n" "n < 256"
  shows "stoi16 (put_hex4 n) = Some n"
proof -
  from assms have hi: "n div 4096 = 0" "n div 256 = 0" by simp_all
  from assms have "n div 16 < 16" by simp
  with assms have mid: "n div 16 mod 16 = n div 16" "0 \<le> n div 16" by simp_all
  have lo: "0 \<le> n mod 16 \<and> n mod 16 < 16" by simp
  have hex: "put_hex4 n = [hex_digit 0, hex_digit 0, hex_digit (n div 16), hex_digit (n mod 16)]"
    by (simp add: put_hex4_def hi mid)
  have "\<forall>c\<in>set (put_hex4 n). isxdigit c"
    using mid lo \<open>n div 16 < 16\<close> by (simp add: hex hex_digit_value)
  moreover have "length (put_hex4 n) = 4" by (simp add: put_hex4_def)
  ultimately have "stoi16 (put_hex4 n) = Some (digits_value 16 (put_hex4 n))"
    by (intro stoi16_four_xdigits)
  moreover have "digits_value 16 (put_hex4 n) = n"
    using mid lo \<open>n div 16 < 16\<close> by (simp add: hex digits_value_def hex_digit_value)
  ultimately show ?thesis by simp
qed

lemma parse_string_loop_two_char:
  assumes "drop pos json = backslash # e # r" "parse_escape json (pos + 1) = Inr (cs, pos + 2)"
  shows "parse_string_loop json pos acc = parse_string_loop json (pos + 2) (acc @ cs)"
proof -
  from assms(1) have "pos < length json" by (cases "pos < length json") auto
  moreover from assms(1) have "json ! pos = backslash" by (metis nth_via_drop)
  ultimately show ?thesis using parse_string_loop_escape [OF _ _ assms(2)] by simp
qed

text \<open>The loop reads back what \<open>escape_char\<close> writes for one character.\<close>

lemma parse_string_loop_escape_char:
  assumes "drop pos json = escape_char c @ r"
  shows "parse_string_loop json pos acc =
    parse_string_loop json (pos + length (escape_char c)) (acc @ [c])"
proof -
  define special where "special \<longleftrightarrow> c = quote \<or> c = backslash \<or> c = CHR 0x08 \<or> c = CHR 0x0C
    \<or> c = CHR 0x0A \<or> c = CHR 0x0D \<or> c = CHR 0x09"
  show ?thesis
  proof (cases special)
    case True
    then have "\<exists>e. escape_char c = [backslash, e] \<and>
      (e = quote \<and> c = quote \<or> e = backslash \<and> c = backslash \<or> e = CHR ''b'' \<and> c = CHR 0x08
       \<or> e = CHR ''f'' \<and> c = CHR 0x0C \<or> e = CHR ''n'' \<and> c = CHR 0x0A
       \<or> e = CHR ''r'' \<and> c = CHR 0x0D \<or> e = CHR ''t'' \<and> c = CHR 0x09)"
      unfolding special_def by (elim disjE) (simp_all add: escape_char_def)
    then obtain e where two: "escape_char c = [backslash, e]"
      "e = quote \<and> c = quote \<or> e = backslash \<and> c = backslash \<or> e = CHR ''b'' \<and> c = CHR 0x08
       \<or> e = CHR ''f'' \<and> c = CHR 0x0C \<or> e = CHR ''n'' \<and> c = CHR 0x0A
       \<or> e = CHR ''r'' \<and> c = CHR 0x0D \<or> e = CHR ''t'' \<and> c = CHR 0x09"
      by blast
    with assms have d: "drop pos json = backslash # e # r" by simp
    from drop_append_drop [of pos json "[backslash]" "e # r"] d
    have d1: "drop (pos + 1) json = e # r" by simp
    from two(2) parse_escape_simple [OF d1] have "parse_escape json (pos + 1) = Inr ([c], pos + 2)"
      by auto
    from parse_string_loop_two_char [OF d this] two(1) show ?thesis by simp
  next
    case ns: False
    show ?thesis
    proof (cases "byte c < 32")
      case True
      with ns have hex: "escape_char c = [backslash, CHR ''u''] @ put_hex4 (byte c)"
        unfolding special_def by (simp add: escape_char_def)
      with assms have d: "drop pos json = [backslash, CHR ''u''] @ put_hex4 (byte c) @ r" by simp
      have len: "length ([backslash, CHR ''u''] @ put_hex4 (byte c)) = 6" by (simp add: put_hex4_def)
      from d have d': "drop pos json = ([backslash, CHR ''u''] @ put_hex4 (byte c)) @ r" by simp
      from drop_append_length [OF d'] len have le: "pos + 6 \<le> length json" by simp
      from d have bs: "json ! pos = backslash" by (metis append_Cons nth_via_drop)
      from drop_append_drop [of pos json "[backslash]"] d
      have d1: "drop (pos + 1) json = CHR ''u'' # put_hex4 (byte c) @ r" by simp
      then have u: "json ! (pos + 1) = CHR ''u''" by (metis nth_via_drop)
      from drop_append_drop [of "pos + 1" json "[CHR ''u'']"] d1
      have "drop (pos + 2) json = put_hex4 (byte c) @ r" by (simp add: add.assoc)
      then have "substr json (pos + 2) 4 = put_hex4 (byte c)" by (simp add: substr_def put_hex4_def)
      moreover have "stoi16 (put_hex4 (byte c)) = Some (byte c)"
        using True byte_range [of c] by (intro stoi16_put_hex4) simp_all
      ultimately have st: "stoi16 (substr json (pos + 2) 4) = Some (byte c)" by simp
      have "char_of (byte c) = c" by (simp add: byte_def)
      with unicode_escape_step [OF le bs u st, of acc] hex len True show ?thesis by simp
    next
      case False
      with ns have plain: "escape_char c = [c]" "c \<noteq> quote" "c \<noteq> backslash"
        unfolding special_def by (simp_all add: escape_char_def)
      with assms have "drop pos json = c # r" by simp
      from parse_string_loop_plain [OF this plain(2,3)] plain(1) show ?thesis by simp
    qed
  qed
qed

lemma parse_string_loop_escaped:
  assumes "drop pos json = concat (map escape_char s) @ quote # r"
  shows "parse_string_loop json pos acc = Inr (acc @ s, pos + length (concat (map escape_char s)))"
  using assms
proof (induction s arbitrary: pos acc)
  case Nil
  then show ?case by (simp add: parse_string_loop_stop)
next
  case (Cons c s)
  let ?e = "escape_char c"
  from Cons.prems have d: "drop pos json = ?e @ (concat (map escape_char s) @ quote # r)" by simp
  from drop_append_drop [OF d] have "drop (pos + length ?e) json = concat (map escape_char s) @ quote # r" .
  from Cons.IH [OF this, of "acc @ [c]"] parse_string_loop_escape_char [OF d, of acc]
  show ?case by (simp add: add.assoc)
qed

lemma parse_string_escaped:
  assumes "drop pos json = quote # concat (map escape_char s) @ quote # r"
  shows "parse_string json pos = Inr (String s, pos + length (concat (map escape_char s)) + 2)"
proof -
  let ?t = "concat (map escape_char s)"
  note adv = advance_drop [OF assms]
  from adv have d1: "drop (pos + 1) json = ?t @ quote # r" by simp
  from drop_append_drop [OF d1] have d2: "drop (pos + 1 + length ?t) json = quote # r" .
  from parse_string_loop_escaped [OF d1, of "[]"] current_append [OF assms] adv
    peek_append [OF d2] advance_drop [OF d2]
  show ?thesis by (simp add: parse_string_def add.assoc add.commute)
qed

lemma parse_string_loop_raw:
  assumes "drop pos json = key @ quote # r" "plain_key key"
  shows "parse_string_loop json pos acc = Inr (acc @ key, pos + length key)"
  using assms
proof (induction key arbitrary: pos acc)
  case Nil
  then show ?case by (simp add: parse_string_loop_stop)
next
  case (Cons c key)
  from Cons.prems have d: "drop pos json = c # (key @ quote # r)" and c: "c \<noteq> quote" "c \<noteq> backslash"
    and k: "plain_key key" by (simp_all add: plain_key_def)
  from advance_drop [OF d] have "drop (pos + 1) json = key @ quote # r" by simp
  from Cons.IH [OF this k, of "acc @ [c]"] parse_string_loop_plain [OF d c, of acc]
  show ?case by simp
qed

lemma parse_string_raw:
  assumes "drop pos json = quote # key @ quote # r" "plain_key key"
  shows "parse_string json pos = Inr (String key, pos + length key + 2)"
proof -
  note adv = advance_drop [OF assms(1)]
  from adv have d1: "drop (pos + 1) json = key @ quote # r" by simp
  from drop_append_drop [OF d1] have d2: "drop (pos + 1 + length key) json = quote # r" .
  from parse_string_loop_raw [OF d1 assms(2), of "[]"] current_append [OF assms(1)] adv
    peek_append [OF d2] advance_drop [OF d2]
  show ?thesis by (simp add: parse_string_def add.assoc add.commute)
qed

subsection \<open>Appending an entry with the greatest key\<close>

lemma string_less_asym: "string_less x y \<Longrightarrow> \<not> string_less y x"
  using string_less_trans [of x y x] string_less_irrefl [of x] by blast

lemma map_find_absent: "key \<notin> set (map fst obj) \<Longrightarrow> map_find obj key = None"
  by (induction obj) auto

lemma map_emplace_append:
  "\<forall>k\<in>set (map fst obj). string_less k key \<Longrightarrow> map_emplace key val obj = obj @ [(key, val)]"
proof (induction obj)
  case (Cons kv obj)
  obtain k v where kv: "kv = (k, v)" by (cases kv)
  with Cons.prems have "string_less k key" by simp
  with string_less_asym [of k key] string_less_irrefl [of key] have "\<not> string_less key k" "key \<noteq> k"
    by auto
  with Cons kv show ?case by simp
qed simp

lemma map_store_append:
  "key \<notin> set (map fst obj) \<Longrightarrow> map_store key val (obj @ [(key, v)]) = obj @ [(key, val)]"
  by (induction obj) auto

lemma map_assign_append:
  assumes "\<forall>k\<in>set (map fst obj). string_less k key"
  shows "map_assign obj key val = obj @ [(key, val)]"
proof -
  from assms string_less_irrefl [of key] have nin: "key \<notin> set (map fst obj)" by auto
  from map_find_absent [OF nin] map_emplace_append [OF assms, of Null] map_store_append [OF nin]
  show ?thesis by (simp add: map_assign_def map_subscript_def)
qed

lemma sorted_keys_appendD:
  assumes "sorted_keys (acc @ (key, val) # kvs)"
  shows "\<forall>k\<in>set (map fst acc). string_less k key"
  using assms by (auto simp: sorted_keys_def sorted_wrt_append)

subsection \<open>Dispatch on the first character\<close>

lemma parse_value_skip: "parse_value json (skip_whitespace json p) = parse_value json p"
  by (simp add: parse_value.simps [of json "skip_whitespace json p"] parse_value.simps [of json p]
      skip_whitespace_idem)

lemma parse_array_loop_skip:
  "parse_array_loop json (skip_whitespace json p) acc = parse_array_loop json p acc"
  by (simp add: parse_array_loop.simps [of json "skip_whitespace json p" acc]
      parse_array_loop.simps [of json p acc] parse_value_skip)

lemma parse_value_dispatch:
  assumes "drop pos json = c # r" "\<not> isspace c"
  shows "parse_value json pos =
    (if c = CHR ''n'' then parse_null json pos
     else if c = CHR ''t'' \<or> c = CHR ''f'' then parse_bool json pos
     else if c = quote then parse_string json pos
     else if c = CHR ''['' then parse_array json pos
     else if c = CHR ''{'' then parse_object json pos
     else if c = CHR ''-'' \<or> isdigit c then parse_number json pos
     else Inl (JsonParseError ''Unexpected character'' pos))"
  by (subst parse_value.simps)
     (simp add: skip_whitespace_none [OF assms] current_append [OF assms(1)] Let_def)

lemma not_isspace_marks:
  "\<not> isspace (CHR ''n'')" "\<not> isspace (CHR ''t'')" "\<not> isspace (CHR ''f'')" "\<not> isspace quote"
  "\<not> isspace (CHR ''['')" "\<not> isspace (CHR ''{'')" "\<not> isspace (CHR '']'')" "\<not> isspace (CHR ''}'')"
  "\<not> isspace (CHR '','')" "\<not> isspace (CHR '':'')" "isspace (CHR '' '')"
  by (simp_all add: isspace_def byte_def)

lemma ends_number_marks:
  "ends_number []" "ends_number (CHR '','' # r)" "ends_number (CHR '']'' # r)" "ends_number (CHR ''}'' # r)"
  by (simp_all add: ends_number_def isdigit_def byte_def)

subsection \<open>Reading back the text of a leaf\<close>

lemma roundtrip_null:
  assumes "drop pos json = ''null'' @ rest"
  shows "parse_value json pos = Inr (Null, pos + 4)"
proof -
  from assms have d: "drop pos json = CHR ''n'' # ''ull'' @ rest" by simp
  from assms have "substr json pos 4 = ''null''" by (simp add: substr_def)
  then show ?thesis
    by (simp add: parse_value_dispatch [OF d not_isspace_marks(1)] parse_null_def)
qed

lemma roundtrip_bool:
  assumes "drop pos json = (if b then ''true'' else ''false'') @ rest"
  shows "parse_value json pos = Inr (Bool b, pos + length (if b then ''true'' else ''false''))"
proof (cases b)
  case True
  with assms have d: "drop pos json = CHR ''t'' # ''rue'' @ rest" by simp
  from assms True have "substr json pos 4 = ''true''" by (simp add: substr_def)
  with True show ?thesis
    by (simp add: parse_value_dispatch [OF d not_isspace_marks(2)] parse_bool_def)
next
  case False
  with assms have d: "drop pos json = CHR ''f'' # ''alse'' @ rest" by simp
  from assms False have "substr json pos 4 \<noteq> ''true''" "substr json pos 5 = ''false''"
    by (simp_all add: substr_def)
  with False show ?thesis
    by (simp add: parse_value_dispatch [OF d not_isspace_marks(3)] parse_bool_def)
qed

lemma roundtrip_number:
  assumes "number_roundtrips d" "put_number d = Inr s" "drop pos json = s @ rest" "ends_number rest"
  shows "parse_value json pos = Inr (Number d, pos + length s) \<and> value_head s"
proof -
  from assms(1,2) have sn: "spec_number s" and st: "stod s = Some d"
    by (simp_all add: number_roundtrips_def)
  from sn obtain c r where s: "s = c # r" and c: "c = CHR ''-'' \<or> isdigit c"
    by (rule spec_number_start)
  note nc = number_start_chars [OF c]
  from assms(3) s have dd: "drop pos json = c # r @ rest" by simp
  have "parse_value json pos = parse_number json pos"
    using nc c by (simp add: parse_value_dispatch [OF dd nc(1)])
  moreover have "c \<noteq> CHR '']''" using c by (auto simp: isdigit_def byte_def)
  ultimately show ?thesis
    using parse_number_complete [OF assms(3) sn assms(4)] st s nc(1)
    by (simp add: value_head_def)
qed

lemma roundtrip_string:
  assumes "drop pos json = ([quote] @ concat (map escape_char s) @ [quote]) @ rest"
  shows "parse_value json pos =
    Inr (String s, pos + length ([quote] @ concat (map escape_char s) @ [quote]))"
proof -
  from assms have d: "drop pos json = quote # concat (map escape_char s) @ quote # rest" by simp
  show ?thesis
    by (simp add: parse_value_dispatch [OF d not_isspace_marks(4)] parse_string_escaped [OF d])
qed

subsection \<open>One step of the array and object loops\<close>

lemma parse_array_empty:
  assumes "drop pos json = ''[]'' @ rest"
  shows "parse_value json pos = Inr (Array [], pos + 2)"
proof -
  from assms have d: "drop pos json = CHR ''['' # CHR '']'' # rest" by simp
  from advance_drop [OF d] have adv: "advance json pos = pos + 1" 
    and d1: "drop (pos + 1) json = CHR '']'' # rest" by simp_all
  from skip_whitespace_none [OF d1 not_isspace_marks(7)] peek_append [OF d1] advance_drop [OF d1]
    current_append [OF d] adv
  have "parse_array json pos = Inr (Array [], pos + 2)"
    by (subst parse_array.simps) (simp add: Let_def)
  then show ?thesis by (simp add: parse_value_dispatch [OF d not_isspace_marks(5)])
qed

lemma parse_array_nonempty:
  assumes "drop pos json = CHR ''['' # body @ r" "value_head body"
  shows "parse_value json pos = parse_array_loop json (pos + 1) []"
proof -
  from assms(2) obtain c cs where body: "body = c # cs" and c: "\<not> isspace c" "c \<noteq> CHR '']''"
    by (cases body) (auto simp: value_head_def)
  with assms(1) have d: "drop pos json = CHR ''['' # c # cs @ r" by simp
  from advance_drop [OF d] have adv: "advance json pos = pos + 1" 
    and d1: "drop (pos + 1) json = c # cs @ r" by simp_all
  from skip_whitespace_none [OF d1 c(1)] peek_append [OF d1] c(2) current_append [OF d] adv
  have "parse_array json pos = parse_array_loop json (pos + 1) []"
    by (subst parse_array.simps) (simp add: Let_def)
  then show ?thesis by (simp add: parse_value_dispatch [OF d not_isspace_marks(5)])
qed

lemma parse_array_loop_last:
  assumes "parse_value json pos = Inr (x, p1)" "drop p1 json = CHR '']'' # rest"
  shows "parse_array_loop json pos acc = Inr (Array (acc @ [x]), p1 + 1)"
  using skip_whitespace_none [OF assms(2) not_isspace_marks(7)] peek_append [OF assms(2)]
    advance_drop [OF assms(2)]
  by (subst parse_array_loop.simps) (simp add: assms(1) Let_def)

lemma parse_array_loop_more:
  assumes "parse_value json pos = Inr (x, p1)" "drop p1 json = CHR '','' # r"
  shows "parse_array_loop json pos acc = parse_array_loop json (p1 + 1) (acc @ [x])"
  using skip_whitespace_none [OF assms(2) not_isspace_marks(9)] peek_append [OF assms(2)]
    advance_drop [OF assms(2)]
  by (subst parse_array_loop.simps) (simp add: assms(1) Let_def parse_array_loop_skip)

lemma parse_object_empty:
  assumes "drop pos json = ''{}'' @ rest"
  shows "parse_value json pos = Inr (Object [], pos + 2)"
proof -
  from assms have d: "drop pos json = CHR ''{'' # CHR ''}'' # rest" by simp
  from advance_drop [OF d] have adv: "advance json pos = pos + 1" 
    and d1: "drop (pos + 1) json = CHR ''}'' # rest" by simp_all
  from skip_whitespace_none [OF d1 not_isspace_marks(8)] peek_append [OF d1] advance_drop [OF d1]
    current_append [OF d] adv
  have "parse_object json pos = Inr (Object [], pos + 2)"
    by (subst parse_object.simps) (simp add: Let_def)
  then show ?thesis by (simp add: parse_value_dispatch [OF d not_isspace_marks(6)])
qed

lemma parse_object_nonempty:
  assumes "drop pos json = CHR ''{'' # quote # r"
  shows "parse_value json pos = parse_object_loop json (pos + 1) []"
proof -
  from advance_drop [OF assms] have adv: "advance json pos = pos + 1" 
    and d1: "drop (pos + 1) json = quote # r" by simp_all
  from skip_whitespace_none [OF d1 not_isspace_marks(4)] peek_append [OF d1] 
    current_append [OF assms] adv
  have "parse_object json pos = parse_object_loop json (pos + 1) []"
    by (subst parse_object.simps) (simp add: Let_def)
  then show ?thesis by (simp add: parse_value_dispatch [OF assms not_isspace_marks(6)])
qed

lemma parse_object_loop_entry:
  assumes "drop pos json = quote # key @ quote # CHR '':'' # CHR '' '' # r" "plain_key key"
    "parse_value json (pos + length key + 4) = Inr (x, p3)"
  shows "drop p3 json = CHR ''}'' # rest \<Longrightarrow>
      parse_object_loop json pos acc = Inr (Object (map_assign acc key x), p3 + 1)"
    and "drop p3 json = CHR '','' # rest \<Longrightarrow>
      parse_object_loop json pos acc = parse_object_loop json (p3 + 1) (map_assign acc key x)"
proof -
  let ?p1 = "pos + length key + 2"
  from assms(1) have d': "drop pos json = quote # key @ quote # (CHR '':'' # CHR '' '' # r)" by simp
  note ps = parse_string_raw [OF d' assms(2)]
  from assms(1) have "drop pos json = (quote # key @ [quote]) @ CHR '':'' # CHR '' '' # r" by simp
  from drop_append_drop [OF this] have d1: "drop ?p1 json = CHR '':'' # CHR '' '' # r" by simp
  from advance_drop [OF d1] have adv1: "advance json ?p1 = ?p1 + 1"
    and d2: "drop (?p1 + 1) json = CHR '' '' # r" by simp_all
  from d2 have "?p1 + 1 < length json" by (cases "?p1 + 1 < length json") auto
  moreover from d2 have "json ! (?p1 + 1) = CHR '' ''" by (metis nth_via_drop)
  ultimately have "skip_whitespace json (?p1 + 1) = skip_whitespace json (?p1 + 1 + 1)"
    by (subst skip_whitespace.simps) (simp add: not_isspace_marks)
  moreover have "?p1 + 1 + 1 = pos + length key + 4" by simp
  ultimately have "skip_whitespace json (?p1 + 1) = skip_whitespace json (pos + length key + 4)"
    by (simp only:)
  then have "parse_value json (skip_whitespace json (?p1 + 1)) =
      parse_value json (skip_whitespace json (pos + length key + 4))"
    by (simp only:)
  with assms(3) have pv: "parse_value json (skip_whitespace json (?p1 + 1)) = Inr (x, p3)"
    by (simp only: parse_value_skip)
  note start = skip_whitespace_none [OF assms(1) not_isspace_marks(4)] peek_append [OF assms(1)]
    skip_whitespace_none [OF d1 not_isspace_marks(10)] peek_append [OF d1] adv1
  {
    assume e: "drop p3 json = CHR ''}'' # rest"
    from skip_whitespace_none [OF e not_isspace_marks(8)] peek_append [OF e] advance_drop [OF e]
    show "parse_object_loop json pos acc = Inr (Object (map_assign acc key x), p3 + 1)"
      using start ps pv by (subst parse_object_loop.simps) (simp add: Let_def)
  }
  {
    assume e: "drop p3 json = CHR '','' # rest"
    from skip_whitespace_none [OF e not_isspace_marks(9)] peek_append [OF e] advance_drop [OF e]
    show "parse_object_loop json pos acc = parse_object_loop json (p3 + 1) (map_assign acc key x)"
      using start ps pv by (subst parse_object_loop.simps) (simp add: Let_def)
  }
qed

lemma stringify_object_head:
  assumes "stringify_object ((key, val) # kvs) False indent = Inr body"
  obtains vt rb where "stringify val False (indent + 1) = Inr vt"
    "stringify_object kvs False indent = Inr rb"
    "body = [quote] @ key @ [quote] @ '': '' @ vt @ (if kvs \<noteq> [] then '','' else []) @ rb"
  using assms by (auto simp: make_indent_def split: sum.splits)

lemma stringify_array_head:
  assumes "stringify_array (x # xs) False indent = Inr body"
  obtains vt rb where "stringify x False (indent + 1) = Inr vt"
    "stringify_array xs False indent = Inr rb"
    "body = vt @ (if xs \<noteq> [] then '','' else []) @ rb"
  using assms by (auto simp: make_indent_def split: sum.splits)

lemma roundtrip_at:
  "pretty = False \<Longrightarrow> roundtrips j \<Longrightarrow> stringify j pretty indent = Inr s
     \<Longrightarrow> drop pos json = s @ rest \<Longrightarrow> ends_number rest
     \<Longrightarrow> parse_value json pos = Inr (j, pos + length s) \<and> value_head s"
  "pretty = False \<Longrightarrow> list_all roundtrips arr \<Longrightarrow> arr \<noteq> []
     \<Longrightarrow> stringify_array arr pretty indent = Inr body
     \<Longrightarrow> drop pos json = body @ CHR '']'' # rest
     \<Longrightarrow> parse_array_loop json pos acc = Inr (Array (acc @ arr), pos + length body + 1)
         \<and> value_head body"
  "pretty = False \<Longrightarrow> list_all (\<lambda>kv. plain_key (fst kv) \<and> roundtrips (snd kv)) obj \<Longrightarrow> obj \<noteq> []
     \<Longrightarrow> sorted_keys (oacc @ obj)
     \<Longrightarrow> stringify_object obj pretty indent = Inr body
     \<Longrightarrow> drop pos json = body @ CHR ''}'' # rest
     \<Longrightarrow> parse_object_loop json pos oacc = Inr (Object (oacc @ obj), pos + length body + 1)"
proof (induction j pretty indent and arr pretty indent and obj pretty indent
    arbitrary: s pos rest and body pos rest acc and body pos rest oacc
    rule: stringify_stringify_array_stringify_object.induct)
  case (1 pretty indent)
  then show ?case
    using roundtrip_null [of pos json rest] by (auto simp: value_head_def not_isspace_marks)
next
  case (2 b pretty indent)
  then show ?case
    using roundtrip_bool [of pos json b rest]
    by (cases b) (auto simp: value_head_def not_isspace_marks)
next
  case (3 num pretty indent)
  then show ?case
    using roundtrip_number [of num s pos json rest] by auto
next
  case (4 str pretty indent)
  then show ?case
    using roundtrip_string [of pos json str rest] by (auto simp: value_head_def not_isspace_marks)
next
  case (5 arr pretty indent)
  from "5.prems" obtain body where body: "stringify_array arr False indent = Inr body"
    and s: "s = CHR ''['' # body @ '']''"
    by (auto split: sum.splits)
  have vh: "value_head s" by (simp add: s value_head_def not_isspace_marks)
  show ?case
  proof (cases "arr = []")
    case True
    with body have "body = []" by simp
    with s "5.prems" True parse_array_empty [of pos json rest] vh show ?thesis by simp
  next
    case False
    from "5.prems" s have d: "drop pos json = CHR ''['' # body @ (CHR '']'' # rest)" by simp
    from drop_append_drop [of pos json "[CHR ''['']"] d
    have d1: "drop (pos + 1) json = body @ CHR '']'' # rest" by simp
    from "5.prems" have ok: "list_all roundtrips arr" by simp
    from "5.IH" [OF "5.prems"(1) ok False _ d1, of "[]"] body "5.prems"(1)
    have loop: "parse_array_loop json (pos + 1) [] = Inr (Array arr, pos + 1 + length body + 1)"
      and hb: "value_head body" by simp_all
    from parse_array_nonempty [OF d hb] loop s vh show ?thesis by simp
  qed
next
  case (6 obj pretty indent)
  from "6.prems" obtain body where body: "stringify_object obj False indent = Inr body"
    and s: "s = CHR ''{'' # body @ ''}''"
    by (auto split: sum.splits)
  have vh: "value_head s" by (simp add: s value_head_def not_isspace_marks)
  show ?case
  proof (cases "obj = []")
    case True
    with body have "body = []" by simp
    with s "6.prems" True parse_object_empty [of pos json rest] vh show ?thesis by simp
  next
    case False
    then obtain key val kvs where obj: "obj = (key, val) # kvs" by (cases obj) auto
    with body have "stringify_object ((key, val) # kvs) False indent = Inr body" by simp
    then obtain vt rb where
      "body = [quote] @ key @ [quote] @ '': '' @ vt @ (if kvs \<noteq> [] then '','' else []) @ rb"
      by (rule stringify_object_head)
    then obtain r' where hb: "body = quote # r'" by simp
    from "6.prems" s have d: "drop pos json = CHR ''{'' # body @ (CHR ''}'' # rest)" by simp
    from drop_append_drop [of pos json "[CHR ''{'']"] d
    have d1: "drop (pos + 1) json = body @ CHR ''}'' # rest" by simp
    from "6.prems" have ok: "list_all (\<lambda>kv. plain_key (fst kv) \<and> roundtrips (snd kv)) obj"
      and so: "sorted_keys ([] @ obj)" by simp_all
    from "6.IH" [OF "6.prems"(1) ok False so _ d1] body "6.prems"(1)
    have loop: "parse_object_loop json (pos + 1) [] = Inr (Object obj, pos + 1 + length body + 1)"
      by simp
    from d hb have "drop pos json = CHR ''{'' # quote # (r' @ CHR ''}'' # rest)" by simp
    from parse_object_nonempty [OF this] loop s vh show ?thesis by simp
  qed
next
  case (7 pretty indent)
  then show ?case by simp
next
  case (8 x xs pretty indent)
  from "8.prems" have pf: "pretty = False" by simp
  from "8.prems" pf have "stringify_array (x # xs) False indent = Inr body" by simp
  then obtain vt rb where vt: "stringify x False (indent + 1) = Inr vt"
    and rb: "stringify_array xs False indent = Inr rb"
    and body: "body = vt @ (if xs \<noteq> [] then '','' else []) @ rb"
    by (rule stringify_array_head)
  from "8.prems" have okx: "roundtrips x" and okxs: "list_all roundtrips xs" by simp_all
  let ?tail = "(if xs \<noteq> [] then '','' else []) @ rb @ CHR '']'' # rest"
  from "8.prems" body have d: "drop pos json = vt @ ?tail" by simp
  have en: "ends_number ?tail"
    using rb by (cases "xs = []") (simp_all add: ends_number_marks)
  from "8.IH"(1) [OF pf okx _ d en] vt pf
  have pv: "parse_value json pos = Inr (x, pos + length vt)" and ht: "value_head vt"
    by simp_all
  from ht body have hb: "value_head body" by (cases vt) (auto simp: value_head_def)
  note d1 = drop_append_drop [OF d]
  show ?case
  proof (cases "xs = []")
    case True
    with rb have "rb = []" by simp
    with d1 True have "drop (pos + length vt) json = CHR '']'' # rest" by simp
    from parse_array_loop_last [OF pv this, of acc] True body \<open>rb = []\<close> hb
    show ?thesis by simp
  next
    case False
    with d1 have d2: "drop (pos + length vt) json = CHR '','' # rb @ CHR '']'' # rest" by simp
    from advance_drop [OF d2] have d3: "drop (pos + length vt + 1) json = rb @ CHR '']'' # rest"
      by simp
    from "8.IH"(2) [OF _ pf okxs False _ d3, of vt "acc @ [x]"] vt rb pf
    have "parse_array_loop json (pos + length vt + 1) (acc @ [x])
        = Inr (Array ((acc @ [x]) @ xs), pos + length vt + 1 + length rb + 1)"
      by simp
    with parse_array_loop_more [OF pv d2, of acc] False body hb
    show ?thesis by simp
  qed
next
  case (9 pretty indent)
  then show ?case by simp
next
  case (10 key val kvs pretty indent)
  from "10.prems" have pf: "pretty = False" by simp
  from "10.prems" pf have "stringify_object ((key, val) # kvs) False indent = Inr body" by simp
  then obtain vt rb where vt: "stringify val False (indent + 1) = Inr vt"
    and rb: "stringify_object kvs False indent = Inr rb"
    and body: "body = [quote] @ key @ [quote] @ '': '' @ vt @ (if kvs \<noteq> [] then '','' else []) @ rb"
    by (rule stringify_object_head)
  from "10.prems" have pk: "plain_key key" and okv: "roundtrips val"
    and okkvs: "list_all (\<lambda>kv. plain_key (fst kv) \<and> roundtrips (snd kv)) kvs" by simp_all
  let ?tail = "(if kvs \<noteq> [] then '','' else []) @ rb @ CHR ''}'' # rest"
  from "10.prems" body
  have d: "drop pos json = quote # key @ quote # CHR '':'' # CHR '' '' # (vt @ ?tail)" by simp
  then have "drop pos json = (quote # key @ quote # '': '') @ vt @ ?tail" by simp
  from drop_append_drop [OF this]
  have "drop (pos + length (quote # key @ quote # '': '')) json = vt @ ?tail" .
  moreover have "pos + length (quote # key @ quote # '': '') = pos + length key + 4" by simp
  ultimately have dv: "drop (pos + length key + 4) json = vt @ ?tail" by (simp only:)
  have en: "ends_number ?tail"
    using rb by (cases "kvs = []") (simp_all add: ends_number_marks)
  from "10.IH"(1) [OF pf okv _ dv en] vt pf
  have pv: "parse_value json (pos + length key + 4) = Inr (val, pos + length key + 4 + length vt)"
    by simp
  note entry = parse_object_loop_entry [OF d pk pv]
  note d1 = drop_append_drop [OF dv]
  from sorted_keys_appendD [OF "10.prems"(4)]
  have asg: "map_assign oacc key val = oacc @ [(key, val)]" by (rule map_assign_append)
  show ?case
  proof (cases "kvs = []")
    case True
    with rb have "rb = []" by simp
    with d1 True have "drop (pos + length key + 4 + length vt) json = CHR ''}'' # rest" by simp
    from entry(1) [OF this, of oacc] True body \<open>rb = []\<close> asg
    show ?thesis by simp
  next
    case False
    with d1 have d2: "drop (pos + length key + 4 + length vt) json = CHR '','' # rb @ CHR ''}'' # rest"
      by simp
    from advance_drop [OF d2]
    have d3: "drop (pos + length key + 4 + length vt + 1) json = rb @ CHR ''}'' # rest"
      by simp
    from "10.prems"(4) have so: "sorted_keys ((oacc @ [(key, val)]) @ kvs)" by simp
    from "10.IH"(2) [OF _ pf okkvs False so _ d3, of vt] vt rb pf
    have "parse_object_loop json (pos + length key + 4 + length vt + 1) (oacc @ [(key, val)])
        = Inr (Object ((oacc @ [(key, val)]) @ kvs),
               pos + length key + 4 + length vt + 1 + length rb + 1)"
      by simp
    with entry(2) [OF d2, of oacc] False body asg
    show ?thesis by simp
  qed
qed

lemma stringify_returns:
  "pretty = False \<Longrightarrow> roundtrips j \<Longrightarrow> \<exists>s. stringify j pretty indent = Inr s"
  "pretty = False \<Longrightarrow> list_all roundtrips arr \<Longrightarrow> \<exists>s. stringify_array arr pretty indent = Inr s"
  "pretty = False \<Longrightarrow> list_all (\<lambda>kv. plain_key (fst kv) \<and> roundtrips (snd kv)) obj
     \<Longrightarrow> \<exists>s. stringify_object obj pretty indent = Inr s"
proof (induction j pretty indent and arr pretty indent and obj pretty indent
    rule: stringify_stringify_array_stringify_object.induct)
  case (3 num pretty indent)
  then show ?case by (cases "put_number num") (simp_all add: number_roundtrips_def)
next
  case (5 arr pretty indent)
  then show ?case by auto
next
  case (6 obj pretty indent)
  then show ?case by auto
next
  case (8 x xs pretty indent)
  from "8.prems" "8.IH"(1) obtain t where t: "stringify x pretty (indent + 1) = Inr t" by auto
  from "8.prems" "8.IH"(2) [OF t] obtain u where "stringify_array xs pretty indent = Inr u" by auto
  with t show ?case by simp
next
  case (10 key val kvs pretty indent)
  from "10.prems" "10.IH"(1) obtain t where t: "stringify val pretty (indent + 1) = Inr t" by auto
  from "10.prems" "10.IH"(2) [OF t] obtain u where "stringify_object kvs pretty indent = Inr u" by auto
  with t show ?case by simp
qed simp_all

text \<open>
  The part of the round trip that holds: a value whose numbers are read back (every
  number that is printed as an integer is, by \<open>integer_number_roundtrips\<close>), whose
  objects are maps and whose keys have no quote and no backslash is serialized
  without failure, and parsing the compact text returns the value.
\<close>

theorem roundtrip_of_plain_values:
  "roundtrips v \<longrightarrow> (\<exists>s. stringify v False indent = Inr s \<and> parse s = Inr v)"
proof
  assume ok: "roundtrips v"
  from stringify_returns(1) [OF refl ok] obtain s where s: "stringify v False indent = Inr s"
    by blast
  have d: "drop 0 s = s @ []" by simp
  from roundtrip_at(1) [OF refl ok s d ends_number_marks(1)]
  have pv: "parse_value s 0 = Inr (v, length s)" and vh: "value_head s" by simp_all
  from vh obtain c r where c: "s = c # r" "\<not> isspace c" by (cases s) (auto simp: value_head_def)
  then have "drop 0 s = c # r" by simp
  from skip_whitespace_none [OF this c(2)] have sk0: "skip_whitespace s 0 = 0" .
  have skn: "skip_whitespace s (length s) = length s"
    by (subst skip_whitespace.simps) simp
  from pv sk0 skn have "parse s = Inr v" by (simp add: parse_def)
  with s show "\<exists>s. stringify v False indent = Inr s \<and> parse s = Inr v" by blast
qed

text \<open>An object with a nested array, a string that needs three kinds of escape, an
  integral number and a fraction.\<close>

theorem roundtrip_of_plain_values_witness:
  \<open>stringify (Object [(''k'', Array [Null, Bool True, String (''a"b'' @ [CHR 0x0A, CHR 0x01]), Number 3]),
                      (''l'', Number (- 0.25))]) False 0
     = Inr (''{"k": [null,true,"a'' @ [backslash] @ ''"b'' @ [backslash] @ ''n''
             @ [backslash] @ ''u0001",3],"l": -0.25}'')
   \<and> parse (''{"k": [null,true,"a'' @ [backslash] @ ''"b'' @ [backslash] @ ''n''
             @ [backslash] @ ''u0001",3],"l": -0.25}'')
     = Inr (Object [(''k'', Array [Null, Bool True, String (''a"b'' @ [CHR 0x0A, CHR 0x01]), Number 3]),
                    (''l'', Number (- 0.25))])\<close>
proof -
  let ?v = \<open>Object [(''k'', Array [Null, Bool True, String (''a"b'' @ [CHR 0x0A, CHR 0x01]), Number 3]),
                      (''l'', Number (- 0.25))]\<close>
  have s: \<open>stringify ?v False 0
     = Inr (''{"k": [null,true,"a'' @ [backslash] @ ''"b'' @ [backslash] @ ''n''
             @ [backslash] @ ''u0001",3],"l": -0.25}'')\<close>
    by code_simp
  have dg: "isdigit (CHR ''0'')" "isdigit (CHR ''2'')" "isdigit (CHR ''3'')" "isdigit (CHR ''5'')"
    by (simp_all add: isdigit_def byte_def)
  have n3: "put_number 3 = Inr ''3''" "stod ''3'' = Some 3"
    by code_simp+
  have nq: "put_number (- 0.25) = Inr ''-0.25''" "stod ''-0.25'' = Some (- 0.25)"
    by code_simp+
  have g3: "spec_number ''3''"
    using spec_numberI [of "[]" "''3''" "[]" "[]"] by (simp add: spec_integer_part_def dg)
  have gq: "spec_number ''-0.25''"
    using spec_numberI [of "''-''" "''0''" "''.25''" "[]"]
    by (simp add: spec_integer_part_def spec_fraction_part_def dg)
  have ok: "roundtrips ?v"
    using n3 nq g3 gq by (simp add: number_roundtrips_def sorted_keys_def plain_key_def byte_def)
  from roundtrip_of_plain_values [of ?v 0] ok s show ?thesis by simp
qed

text \<open>
  Claim C1 does not hold on the code for arbitrary keys.  \<open>stringify\<close> escapes the
  characters of a string value but writes an object key between quotes as it is.  The
  object with the key \<^verbatim>\<open>a"b\<close> is written as \<^verbatim>\<open>{"a"b": null}\<close>, which \<open>parse\<close> rejects at
  offset 4, while the same text as a string value is escaped and read back; and the
  object whose key is a backslash followed by \<open>n\<close> is read back with a key that is the
  newline character.
\<close>

theorem roundtrip_fails_on_quoted_key:
  \<open>stringify (Object [(''a"b'', Null)]) False 0 = Inr ''{"a"b": null}''
   \<and> parse ''{"a"b": null}'' = Inl (JsonParseError ''Expected ':' after key in object'' 4)
   \<and> stringify (String ''a"b'') False 0 = Inr ([quote, CHR ''a'', backslash, quote, CHR ''b'', quote])
   \<and> parse ([quote, CHR ''a'', backslash, quote, CHR ''b'', quote]) = Inr (String ''a"b'')
   \<and> stringify (Object [([backslash, CHR ''n''], Null)]) False 0
       = Inr (''{"'' @ [backslash] @ ''n": null}'')
   \<and> parse (''{"'' @ [backslash] @ ''n": null}'') = Inr (Object [([CHR 0x0A], Null)])\<close>
  by code_simp

section \<open>Error locality\<close>

text \<open>
  Claim C8.  Parsing \<^verbatim>\<open>{"a": 1,}\<close> fails: the trailing comma is not accepted.  After
  the comma the object loop requires a string key, finds the closing brace at byte
  offset 8 and throws a \<open>JsonParseError\<close> carrying that offset; no value is returned.
\<close>

theorem trailing_comma_rejected:
  \<open>parse ''{"a": 1,}'' = Inl (JsonParseError ''Expected string key in object'' 8)
   \<and> ''{"a": 1,}'' ! 8 = CHR ''}''\<close>
  by code_simp

end
